theory Spec2Isabelle
  imports Main "HOL-Library.Multiset" "HOL-Library.Code_Target_Nat"
begin

section \<open>Strings\<close>

text \<open>
  A JavaScript string is a sequence of UTF-16 code units. The functions below look at
  single code units (\<open>text[i]\<close>, \<open>trim\<close>, regular expressions), so a string is
  modelled as the list of its code units, each a natural number. \<open>js\<close> turns an ASCII
  literal into such a list.
\<close>

type_synonym jstring = "nat list"

definition js :: "string \<Rightarrow> jstring" where
  "js s = map of_char s"

definition LT :: nat where "LT = 60"        \<comment> \<open>the code unit of \<open><\<close>\<close>
definition GT :: nat where "GT = 62"        \<comment> \<open>the code unit of \<open>>\<close>\<close>
definition SLASH :: nat where "SLASH = 47"  \<comment> \<open>the code unit of \<open>/\<close>\<close>
definition NL :: nat where "NL = 10"        \<comment> \<open>the code unit of the line feed\<close>

section \<open>The tag normaliser: \<open>cleanupTags\<close>\<close>

text \<open>
  The three inline styles. The source keeps them as the one-letter strings
  \<open>'b'\<close>, \<open>'i'\<close>, \<open>'u'\<close> captured by the group \<open>([biu])\<close>.
\<close>

datatype tag = TagB | TagI | TagU

fun tag_char :: "tag \<Rightarrow> nat" where
  "tag_char TagB = 98"
| "tag_char TagI = 105"
| "tag_char TagU = 117"

definition tag_of :: "nat \<Rightarrow> tag option" where
  "tag_of c = (if c = 98 then Some TagB else if c = 105 then Some TagI
               else if c = 117 then Some TagU else None)"

text \<open>
  \<open>text.substring(i).match(/^<(\/?)([biu])>/)\<close>: the result is \<open>None\<close> when the
  suffix does not start with a tag, and otherwise tells whether the tag is a closing one
  and which style it names. The matched text has length 4 for a closing tag, 3 otherwise.
\<close>

definition tagMatch :: "jstring \<Rightarrow> (bool \<times> tag) option" where
  "tagMatch s =
     (case s of
        a # b # c # rest \<Rightarrow>
          if a = LT \<and> c = GT then map_option (Pair False) (tag_of b)
          else if a = LT \<and> b = SLASH then
            (case rest of
               d # _ \<Rightarrow> if d = GT then map_option (Pair True) (tag_of c) else None
             | [] \<Rightarrow> None)
          else None
      | _ \<Rightarrow> None)"

definition match_length :: "bool \<Rightarrow> nat" where
  "match_length isClosing = (if isClosing then 4 else 3)"

text \<open>
  \<open>new Set(tagStack)\<close>: a JavaScript \<open>Set\<close> iterates in insertion order, and adding
  a member that is already present leaves its place unchanged. It is modelled as the
  duplicate-free list of its members in insertion order.
\<close>

definition set_add :: "'a list \<Rightarrow> 'a \<Rightarrow> 'a list" where
  "set_add s x = (if x \<in> set s then s else s @ [x])"

definition new_Set :: "'a list \<Rightarrow> 'a list" where
  "new_Set xs = foldl set_add [] xs"

text \<open>A segment \<open>{ text, tags }\<close>.\<close>

type_synonym segment = "jstring \<times> tag list"

text \<open>
  The push guarded by \<open>if (currentText)\<close>, which both the loop and the code after it
  perform.
\<close>

definition push_segment :: "segment list \<Rightarrow> tag list \<Rightarrow> jstring \<Rightarrow> segment list" where
  "push_segment segments tagStack currentText =
     (if currentText \<noteq> [] then segments @ [(currentText, new_Set tagStack)] else segments)"

text \<open>
  The closing branch: \<open>index = tagStack.indexOf(tag)\<close>, and
  \<open>tagStack.splice(index, 1)\<close> when the index is not \<open>-1\<close>. \<open>indexOf\<close> searches
  from index 0, the bottom of the stack, so the occurrence removed is the first one.
\<close>

fun indexOf :: "'a list \<Rightarrow> 'a \<Rightarrow> nat option" where
  "indexOf [] x = None"
| "indexOf (y # ys) x = (if y = x then Some 0 else map_option Suc (indexOf ys x))"

definition splice1 :: "'a list \<Rightarrow> nat \<Rightarrow> 'a list" where
  "splice1 xs i = take i xs @ drop (Suc i) xs"

definition close_tag :: "tag list \<Rightarrow> tag \<Rightarrow> tag list" where
  "close_tag tagStack t =
     (case indexOf tagStack t of None \<Rightarrow> tagStack | Some i \<Rightarrow> splice1 tagStack i)"

definition update_stack :: "tag list \<Rightarrow> bool \<Rightarrow> tag \<Rightarrow> tag list" where
  "update_stack tagStack isClosing t =
     (if isClosing then close_tag tagStack t else tagStack @ [t])"

text \<open>
  The \<open>while (i < text.length)\<close> loop, as a recursion on the suffix \<open>text.substring(i)\<close>
  with the three variables the loop updates.
\<close>

function scan :: "jstring \<Rightarrow> segment list \<Rightarrow> tag list \<Rightarrow> jstring
    \<Rightarrow> segment list \<times> tag list \<times> jstring" where
  "scan [] segments tagStack currentText = (segments, tagStack, currentText)"
| "scan (c # cs) segments tagStack currentText =
     (case tagMatch (c # cs) of
        Some (isClosing, t) \<Rightarrow>
          scan (drop (match_length isClosing) (c # cs))
            (push_segment segments tagStack currentText)
            (update_stack tagStack isClosing t) []
      | None \<Rightarrow> scan cs segments tagStack (currentText @ [c]))"
  by pat_completeness auto
termination
  by (relation "measure (\<lambda>(s, _, _, _). length s)") (auto simp: match_length_def)

text \<open>The segments after the loop, with the last pending text pushed.\<close>

definition segments_of :: "jstring \<Rightarrow> segment list" where
  "segments_of text =
     (case scan text [] [] [] of
        (segments, tagStack, currentText) \<Rightarrow> push_segment segments tagStack currentText)"

definition open_str :: "tag \<Rightarrow> jstring" where
  "open_str t = [LT, tag_char t, GT]"

definition close_str :: "tag \<Rightarrow> jstring" where
  "close_str t = [LT, SLASH, tag_char t, GT]"

text \<open>
  The \<open>for (const segment of segments)\<close> loop with its variables \<open>result\<close> and
  \<open>activeTags\<close>, and the closing of what is still active after it.
\<close>

fun emit :: "segment list \<Rightarrow> tag list \<Rightarrow> jstring \<Rightarrow> jstring" where
  "emit [] activeTags result = result @ concat (map close_str activeTags)"
| "emit ((txt, tags) # rest) activeTags result =
     (let toClose = filter (\<lambda>t. t \<notin> set tags) activeTags;
          toOpen = filter (\<lambda>t. t \<notin> set activeTags) tags
      in emit rest (new_Set tags)
           (result @ concat (map close_str toClose) @ concat (map open_str toOpen) @ txt))"

definition cleanupTags :: "jstring \<Rightarrow> jstring" where
  "cleanupTags text = emit (segments_of text) [] []"

subsection \<open>The same loop, read as a token stream\<close>

text \<open>
  The loop reads the text as a sequence of events: a tag (closing or opening) wherever
  the regular expression matches, a single code unit anywhere else. \<open>tokens\<close> is
  that sequence, with the same case distinction and the same advance of \<open>i\<close> as
  \<open>scan\<close>; \<open>segs_toks\<close> is the list of segments pushed from a token sequence
  onwards, and \<open>emit_from\<close> is the text \<open>emit\<close> appends.
\<close>

datatype token = Ch nat | Tg bool tag

function tokens :: "jstring \<Rightarrow> token list" where
  "tokens [] = []"
| "tokens (c # cs) =
     (case tagMatch (c # cs) of
        Some (isClosing, t) \<Rightarrow> Tg isClosing t # tokens (drop (match_length isClosing) (c # cs))
      | None \<Rightarrow> Ch c # tokens cs)"
  by pat_completeness auto
termination
  by (relation "measure length") (auto simp: match_length_def)

fun segs_toks :: "token list \<Rightarrow> tag list \<Rightarrow> jstring \<Rightarrow> segment list" where
  "segs_toks [] st cur = push_segment [] st cur"
| "segs_toks (Ch c # ts) st cur = segs_toks ts st (cur @ [c])"
| "segs_toks (Tg isClosing t # ts) st cur =
     push_segment [] st cur @ segs_toks ts (update_stack st isClosing t) []"

fun stack_toks :: "token list \<Rightarrow> tag list \<Rightarrow> tag list" where
  "stack_toks [] st = st"
| "stack_toks (Ch c # ts) st = stack_toks ts st"
| "stack_toks (Tg isClosing t # ts) st = stack_toks ts (update_stack st isClosing t)"

fun cur_toks :: "token list \<Rightarrow> jstring \<Rightarrow> jstring" where
  "cur_toks [] cur = cur"
| "cur_toks (Ch c # ts) cur = cur_toks ts (cur @ [c])"
| "cur_toks (Tg isClosing t # ts) cur = cur_toks ts []"

fun emit_from :: "tag list \<Rightarrow> segment list \<Rightarrow> jstring" where
  "emit_from activeTags [] = concat (map close_str activeTags)"
| "emit_from activeTags ((txt, tags) # rest) =
     concat (map close_str (filter (\<lambda>t. t \<notin> set tags) activeTags))
     @ concat (map open_str (filter (\<lambda>t. t \<notin> set activeTags) tags))
     @ txt @ emit_from (new_Set tags) rest"

text \<open>The value of \<open>tagStack\<close> when the loop has read the prefix \<open>pre\<close> of a text.\<close>

definition stack_after :: "jstring \<Rightarrow> tag list" where
  "stack_after pre = (case scan pre [] [] [] of (segments, tagStack, currentText) \<Rightarrow> tagStack)"







section \<open>White space, lines and numbers\<close>

text \<open>
  \<open>String.prototype.trim\<close> and the class \<open>\s\<close> of a regular expression share one
  set of code units: the white space characters and the line terminators of ECMAScript.
\<close>

definition is_ws :: "nat \<Rightarrow> bool" where
  "is_ws c = (c = 9 \<or> c = 10 \<or> c = 11 \<or> c = 12 \<or> c = 13 \<or> c = 32 \<or> c = 160 \<or> c = 5760
              \<or> (8192 \<le> c \<and> c \<le> 8202) \<or> c = 8232 \<or> c = 8233 \<or> c = 8239 \<or> c = 8287
              \<or> c = 12288 \<or> c = 65279)"

definition is_line_terminator :: "nat \<Rightarrow> bool" where
  "is_line_terminator c = (c = 10 \<or> c = 13 \<or> c = 8232 \<or> c = 8233)"

definition trim :: "jstring \<Rightarrow> jstring" where
  "trim s = rev (dropWhile is_ws (rev (dropWhile is_ws s)))"

text \<open>
  \<open>s.split('\n')\<close>: the pieces between line feeds; the empty string gives one empty
  piece. \<open>join_with\<close> is \<open>Array.prototype.join\<close>.
\<close>

fun split_on :: "nat \<Rightarrow> jstring \<Rightarrow> jstring list" where
  "split_on sep [] = [[]]"
| "split_on sep (c # cs) =
     (if c = sep then [] # split_on sep cs
      else (case split_on sep cs of l # ls \<Rightarrow> (c # l) # ls | [] \<Rightarrow> [[c]]))"

fun join_with :: "jstring \<Rightarrow> jstring list \<Rightarrow> jstring" where
  "join_with sep [] = []"
| "join_with sep [l] = l"
| "join_with sep (l # ls) = l @ sep @ join_with sep ls"

definition is_digit :: "nat \<Rightarrow> bool" where
  "is_digit c = (48 \<le> c \<and> c \<le> 57)"

text \<open>
  The class \<open>[A-Z]\<close> under the flag \<open>i\<close>. Without the flag \<open>u\<close> a character
  outside ASCII never matches an ASCII letter; with \<open>u\<close> the comparison is by simple
  case folding, under which the long s (U+017F) folds to \<open>s\<close> and the Kelvin sign
  (U+212A) to \<open>k\<close>.
\<close>

definition is_alpha_i :: "nat \<Rightarrow> bool" where
  "is_alpha_i c = ((65 \<le> c \<and> c \<le> 90) \<or> (97 \<le> c \<and> c \<le> 122))"

definition is_alpha_iu :: "nat \<Rightarrow> bool" where
  "is_alpha_iu c = (is_alpha_i c \<or> c = 383 \<or> c = 8490)"

text \<open>\<open>toUpperCase\<close>, on the ASCII letters it is applied to here.\<close>

definition toUpperCase :: "jstring \<Rightarrow> jstring" where
  "toUpperCase s = map (\<lambda>c. if 97 \<le> c \<and> c \<le> 122 then c - 32 else c) s"

text \<open>
  \<open>parseInt\<close> of a string of decimal digits, and the decimal text of a number as a
  template literal prints it. The numbers are unbounded here. A digit string too long for
  a double is rounded by \<open>parseInt\<close>, but rounding keeps it far above every bound it is
  compared with below.
\<close>

definition parseInt :: "jstring \<Rightarrow> int" where
  "parseInt ds = int (foldl (\<lambda>a c. 10 * a + (c - 48)) 0 ds)"

function show_nat :: "nat \<Rightarrow> jstring" where
  "show_nat n = (if n < 10 then [48 + n] else show_nat (n div 10) @ [48 + n mod 10])"
  by pat_completeness auto
termination
  by (relation "measure id") auto

declare show_nat.simps [simp del]

definition show_int :: "int \<Rightarrow> jstring" where
  "show_int i = (if i < 0 then 45 # show_nat (nat (- i)) else show_nat (nat i))"

definition padStart2 :: "jstring \<Rightarrow> jstring" where
  "padStart2 s = replicate (2 - length s) 48 @ s"

text \<open>
  \<open>Number(s)\<close> for the pieces of a date string: white space is trimmed, the empty
  string is 0, a string of decimal digits is its value. \<open>None\<close> is \<open>NaN\<close>. The other
  numeric literals of JavaScript (a sign, a fraction, an exponent, a radix prefix,
  \<open>Infinity\<close>) do not occur in a date of the documented shape \<open>YYYY-MM-DD\<close> and are
  not modelled: they read as \<open>NaN\<close> here.
\<close>

definition Number :: "jstring \<Rightarrow> int option" where
  "Number s = (let t = trim s in
     if t = [] then Some 0 else if list_all is_digit t then Some (parseInt t) else None)"

section \<open>Dates\<close>

text \<open>
  A \<open>Date\<close> holds a time value or is invalid. Every date made here is a local midnight,
  so the time value is kept as a whole number of days since 1 January 1970, and \<open>None\<close>
  is the invalid date. The host's time zone is taken to be UTC. \<open>make_day\<close> is
  ECMAScript's MakeDay, \<open>day_from_year\<close> its DayFromYear; the time value is clipped
  at 100,000,000 days on either side of the epoch.
\<close>

type_synonym jsDate = "int option"

definition is_leap :: "int \<Rightarrow> bool" where
  "is_leap y = (y mod 4 = 0 \<and> (y mod 100 \<noteq> 0 \<or> y mod 400 = 0))"

definition days_in_year :: "int \<Rightarrow> int" where
  "days_in_year y = (if is_leap y then 366 else 365)"

definition days_in_month :: "int \<Rightarrow> nat \<Rightarrow> int" where
  "days_in_month y m =
     (if m = 1 then (if is_leap y then 29 else 28)
      else if m = 3 \<or> m = 5 \<or> m = 8 \<or> m = 10 then 30 else 31)"

definition day_from_year :: "int \<Rightarrow> int" where
  "day_from_year y = 365 * (y - 1970) + (y - 1969) div 4 - (y - 1901) div 100 + (y - 1601) div 400"

definition days_before_month :: "int \<Rightarrow> nat \<Rightarrow> int" where
  "days_before_month y m = sum_list (map (days_in_month y) [0..<m])"

definition make_day :: "int \<Rightarrow> int \<Rightarrow> int \<Rightarrow> int" where
  "make_day year month date =
     (let ym = year + month div 12; mn = nat (month mod 12)
      in day_from_year ym + days_before_month ym mn + date - 1)"

text \<open>\<open>new Date(year, monthIndex, day)\<close>; a year from 0 to 99 means 1900 + year.\<close>

definition new_Date :: "int \<Rightarrow> int \<Rightarrow> int \<Rightarrow> jsDate" where
  "new_Date year month day =
     (let yr = (if 0 \<le> year \<and> year \<le> 99 then 1900 + year else year);
          dn = make_day yr month day
      in if - 100000000 \<le> dn \<and> dn \<le> 100000000 then Some dn else None)"

text \<open>
  The calendar fields of a day number: the year is found by stepping from 1970, one year
  at a time, with the days left over in that year; the month by stepping through the year.
\<close>

function year_step :: "int \<Rightarrow> int \<Rightarrow> int \<times> int" where
  "year_step y d =
     (if d < 0 then year_step (y - 1) (d + days_in_year (y - 1))
      else if days_in_year y \<le> d then year_step (y + 1) (d - days_in_year y)
      else (y, d))"
  by pat_completeness auto
termination
  by (relation "measure (\<lambda>(y, d). if d < 0 then nat (- d) + 400 else nat d)")
     (auto simp: days_in_year_def split: if_splits)

function month_step :: "int \<Rightarrow> nat \<Rightarrow> int \<Rightarrow> nat \<times> int" where
  "month_step y m d =
     (if m < 11 \<and> days_in_month y m \<le> d then month_step y (Suc m) (d - days_in_month y m)
      else (m, d))"
  by pat_completeness auto
termination
  by (relation "measure (\<lambda>(y, m, d). 11 - m)") auto

declare year_step.simps [simp del] month_step.simps [simp del]

definition getFullYear :: "int \<Rightarrow> int" where
  "getFullYear dn = fst (year_step 1970 dn)"

definition getMonth :: "int \<Rightarrow> nat" where
  "getMonth dn = (case year_step 1970 dn of (y, d) \<Rightarrow> fst (month_step y 0 d))"

definition getDate :: "int \<Rightarrow> int" where
  "getDate dn = (case year_step 1970 dn of (y, d) \<Rightarrow> snd (month_step y 0 d) + 1)"

definition getDay :: "int \<Rightarrow> nat" where
  "getDay dn = nat ((dn + 4) mod 7)"

definition getTime :: "int \<Rightarrow> int" where
  "getTime dn = dn * 86400000"

text \<open>\<open>formatDate\<close>, called on valid dates only.\<close>

definition formatDate :: "int \<Rightarrow> jstring" where
  "formatDate dn =
     show_int (getFullYear dn) @ [45] @ padStart2 (show_nat (getMonth dn + 1))
     @ [45] @ padStart2 (show_int (getDate dn))"

text \<open>
  \<open>parseDate\<close>: the first three pieces between hyphens, each through \<open>Number\<close>; a
  missing piece is \<open>undefined\<close> and reads as \<open>NaN\<close>, and a \<open>NaN\<close> argument makes
  the date invalid.
\<close>

definition parseDate :: "jstring \<Rightarrow> jsDate" where
  "parseDate dateString =
     (case map Number (split_on 45 dateString) of
        Some year # Some month # Some day # _ \<Rightarrow> new_Date year (month - 1) day
      | _ \<Rightarrow> None)"

section \<open>Entries\<close>

datatype MoodColor = Grey | Red | Orange | Yellow | Green | Blue | Purple

record MoodEntry =
  date :: jstring
  mood :: MoodColor
  diary :: jstring

text \<open>\<open>MOOD_EMOJIS\<close>, as UTF-16 code units: the white circle is one unit, the other six
  are surrogate pairs.\<close>

fun MOOD_EMOJIS :: "MoodColor \<Rightarrow> jstring" where
  "MOOD_EMOJIS Grey = [9898]"
| "MOOD_EMOJIS Red = [55357, 56628]"
| "MOOD_EMOJIS Orange = [55357, 57312]"
| "MOOD_EMOJIS Yellow = [55357, 57313]"
| "MOOD_EMOJIS Green = [55357, 57314]"
| "MOOD_EMOJIS Blue = [55357, 56629]"
| "MOOD_EMOJIS Purple = [55357, 57315]"

definition MONTH_NAMES :: "jstring list" where
  "MONTH_NAMES = map js [''January'', ''February'', ''March'', ''April'', ''May'', ''June'',
     ''July'', ''August'', ''September'', ''October'', ''November'', ''December'']"

text \<open>
  The host's locale, which the code reaches through \<open>toLocaleDateString\<close>: the long
  name of month \<open>i\<close> (from 0) and of weekday \<open>i\<close> (from 0, Sunday), each already in
  upper case, as the code only ever uses them. \<open>en_US\<close> is the English one.
\<close>

record host_locale =
  month_long_upper :: "nat \<Rightarrow> jstring"
  weekday_long_upper :: "nat \<Rightarrow> jstring"

definition en_US :: host_locale where
  "en_US = \<lparr> month_long_upper = (\<lambda>i. if i < 12 then toUpperCase (MONTH_NAMES ! i) else []),
            weekday_long_upper = (\<lambda>i. if i < 7 then map js [''SUNDAY'', ''MONDAY'', ''TUESDAY'',
               ''WEDNESDAY'', ''THURSDAY'', ''FRIDAY'', ''SATURDAY''] ! i else []) \<rparr>"

text \<open>\<open>formatDisplayDate\<close>; an invalid date prints as the host prints it.\<close>

definition formatDisplayDate :: "host_locale \<Rightarrow> jsDate \<Rightarrow> jstring" where
  "formatDisplayDate loc d =
     (case d of
        None \<Rightarrow> js ''INVALID DATE NaN NaN, INVALID DATE''
      | Some dn \<Rightarrow> month_long_upper loc (getMonth dn) @ [32] @ show_int (getDate dn) @ [32]
          @ show_int (getFullYear dn) @ [44, 32] @ weekday_long_upper loc (getDay dn))"

section \<open>Export\<close>

definition getValidEntries :: "MoodEntry list \<Rightarrow> MoodEntry list" where
  "getValidEntries entries = filter (\<lambda>entry. mood entry \<noteq> Grey \<or> trim (diary entry) \<noteq> []) entries"

text \<open>
  \<open>sortEntriesByDate\<close>. The comparator subtracts the two time values, and the result
  is \<open>NaN\<close> (\<open>None\<close>) when a date is invalid; \<open>sort\<close> reads \<open>NaN\<close> as 0. The sort of
  JavaScript is stable, and is modelled by insertion from the right. When some date is
  invalid the comparator is not consistent and the order the host produces is not
  determined by the language; nothing is claimed about the order in that case.
\<close>

definition compare_dates :: "bool \<Rightarrow> MoodEntry \<Rightarrow> MoodEntry \<Rightarrow> int option" where
  "compare_dates ascending a b =
     (case (parseDate (date a), parseDate (date b)) of
        (Some dateA, Some dateB) \<Rightarrow>
          Some (if ascending then getTime dateA - getTime dateB else getTime dateB - getTime dateA)
      | _ \<Rightarrow> None)"

fun insert_by :: "('a \<Rightarrow> 'a \<Rightarrow> int option) \<Rightarrow> 'a \<Rightarrow> 'a list \<Rightarrow> 'a list" where
  "insert_by cmp x [] = [x]"
| "insert_by cmp x (y # ys) =
     (if (case cmp x y of Some v \<Rightarrow> v \<le> 0 | None \<Rightarrow> True) then x # y # ys
      else y # insert_by cmp x ys)"

definition sortEntriesByDate :: "MoodEntry list \<Rightarrow> bool \<Rightarrow> MoodEntry list" where
  "sortEntriesByDate entries ascending = foldr (insert_by (compare_dates ascending)) entries []"

text \<open>The block of one entry, and the export.\<close>

definition entry_block :: "host_locale \<Rightarrow> MoodEntry \<Rightarrow> jstring" where
  "entry_block loc entry =
     MOOD_EMOJIS (mood entry) @ [32] @ formatDisplayDate loc (parseDate (date entry))
     @ [NL] @ cleanupTags (diary entry)"

definition exportData :: "host_locale \<Rightarrow> MoodEntry list \<Rightarrow> jstring" where
  "exportData loc entries =
     (let validEntries = getValidEntries entries in
      if length validEntries = 0 then js ''No entries to export.''
      else join_with [NL, NL] (map (entry_block loc) (sortEntriesByDate validEntries False)))"

section \<open>Import\<close>

datatype import_error = FileEmpty | NoValidEntries

text \<open>Whether a string starts with one of the seven emoji, and what follows it.\<close>

definition strip_emoji :: "jstring \<Rightarrow> (MoodColor \<times> jstring) option" where
  "strip_emoji s =
     (case filter (\<lambda>m. take (length (MOOD_EMOJIS m)) s = MOOD_EMOJIS m)
             [Grey, Red, Orange, Yellow, Green, Blue, Purple] of
        m # _ \<Rightarrow> Some (m, drop (length (MOOD_EMOJIS m)) s)
      | [] \<Rightarrow> None)"

text \<open>
  The pattern \<open>^([A-Z]+)\s+(\d+)\s+(\d{4}),\s+[A-Z]+$\<close>, with the letter class as a
  parameter; the result holds the three groups. Letters, white space, digits and the
  comma are disjoint classes, so each repetition takes the longest run it can and no
  shorter run can lead to a match.
\<close>

definition date_text_match :: "(nat \<Rightarrow> bool) \<Rightarrow> jstring \<Rightarrow> (jstring \<times> jstring \<times> jstring) option" where
  "date_text_match alpha s =
     (let monthName = takeWhile alpha s; r1 = dropWhile alpha s;
          r2 = dropWhile is_ws r1;
          day = takeWhile is_digit r2; r3 = dropWhile is_digit r2;
          r4 = dropWhile is_ws r3;
          year = takeWhile is_digit r4; r5 = dropWhile is_digit r4;
          r6 = dropWhile is_ws (tl r5)
      in if monthName \<noteq> [] \<and> r2 \<noteq> r1 \<and> day \<noteq> [] \<and> r4 \<noteq> r3 \<and> length year = 4
            \<and> r5 \<noteq> [] \<and> hd r5 = 44 \<and> r6 \<noteq> tl r5 \<and> r6 \<noteq> [] \<and> list_all alpha r6
         then Some (monthName, day, year) else None)"

text \<open>The test of a header line, under the flags \<open>iu\<close>.\<close>

definition isNewEntry :: "jstring \<Rightarrow> bool" where
  "isNewEntry trimmedLine =
     (case strip_emoji trimmedLine of
        None \<Rightarrow> False
      | Some (m, r) \<Rightarrow> dropWhile is_ws r \<noteq> r \<and> date_text_match is_alpha_iu (dropWhile is_ws r) \<noteq> None)"

text \<open>
  \<open>firstLine.match(/^([...])\s+(.+)$/u)\<close>: the emoji and the date text. The dot matches
  no line terminator. When the white space runs to the end of the line, \<open>\s+\<close> gives its
  last character back to \<open>.+\<close>.
\<close>

definition emojiMatch :: "jstring \<Rightarrow> (MoodColor \<times> jstring) option" where
  "emojiMatch firstLine =
     (case strip_emoji firstLine of
        None \<Rightarrow> None
      | Some (m, r) \<Rightarrow>
          (let w = takeWhile is_ws r; dateText = dropWhile is_ws r in
           if w = [] then None
           else if dateText \<noteq> [] then
             (if list_ex is_line_terminator dateText then None else Some (m, dateText))
           else if 2 \<le> length w \<and> \<not> is_line_terminator (last w) then Some (m, [last w])
           else None))"

text \<open>\<open>getMonthIndex\<close>: the English names first, then the names of the host's locale.\<close>

definition getMonthIndex :: "host_locale \<Rightarrow> jstring \<Rightarrow> nat option" where
  "getMonthIndex loc monthName =
     (let upperMonthName = toUpperCase monthName in
      case indexOf (map toUpperCase MONTH_NAMES) upperMonthName of
        Some monthIndex \<Rightarrow> Some monthIndex
      | None \<Rightarrow> indexOf (map (month_long_upper loc) [0..<12]) upperMonthName)"

text \<open>The first loop: the lines are gathered into blocks.\<close>

definition line_step :: "jstring list \<times> jstring \<Rightarrow> jstring \<Rightarrow> jstring list \<times> jstring" where
  "line_step st line =
     (case st of (blocks, currentBlock) \<Rightarrow>
        let trimmedLine = trim line in
        if isNewEntry trimmedLine \<and> trim currentBlock \<noteq> [] then
          (blocks @ [trim currentBlock], trimmedLine)
        else if isNewEntry trimmedLine then (blocks, trimmedLine)
        else if trimmedLine \<noteq> [] \<or> currentBlock \<noteq> [] then
          (blocks, (if currentBlock \<noteq> [] then currentBlock @ [NL] else currentBlock) @ trimmedLine)
        else (blocks, currentBlock))"

definition blocks_of :: "jstring list \<Rightarrow> jstring list" where
  "blocks_of lines =
     (case foldl line_step ([], []) lines of (blocks, currentBlock) \<Rightarrow>
        if trim currentBlock \<noteq> [] then blocks @ [trim currentBlock] else blocks)"

text \<open>
  The body of the second loop for one block: \<open>None\<close> where the source says
  \<open>continue\<close>, the entry it pushes otherwise.
\<close>

definition parse_block :: "host_locale \<Rightarrow> jstring \<Rightarrow> MoodEntry option" where
  "parse_block loc block =
     (let lines = split_on NL block;
          firstLine = hd lines;
          diaryText = (if length lines > 1 then trim (join_with [NL] (tl lines)) else [])
      in case emojiMatch firstLine of
           None \<Rightarrow> None
         | Some (moodColor, dateText) \<Rightarrow>
             (case date_text_match is_alpha_i dateText of
                None \<Rightarrow> None
              | Some (monthName, dayDigits, yearDigits) \<Rightarrow>
                  (case getMonthIndex loc monthName of
                     None \<Rightarrow> None
                   | Some monthIndex \<Rightarrow>
                       (case new_Date (parseInt yearDigits) (int monthIndex) (parseInt dayDigits) of
                          None \<Rightarrow> None
                        | Some entryDate \<Rightarrow>
                            Some \<lparr> date = formatDate entryDate, mood = moodColor, diary = diaryText \<rparr>))))"

fun parse_blocks :: "host_locale \<Rightarrow> jstring list \<Rightarrow> MoodEntry list \<Rightarrow> MoodEntry list" where
  "parse_blocks loc [] entries = entries"
| "parse_blocks loc (block # blocks) entries =
     (case parse_block loc block of
        None \<Rightarrow> parse_blocks loc blocks entries
      | Some entry \<Rightarrow> parse_blocks loc blocks (entries @ [entry]))"

definition importData :: "host_locale \<Rightarrow> jstring \<Rightarrow> import_error + MoodEntry list" where
  "importData loc content =
     (if trim content = [] then Inl FileEmpty
      else let entries = parse_blocks loc (blocks_of (split_on NL (trim content))) []
           in if length entries = 0 then Inl NoValidEntries else Inr entries)"



text \<open>Every line of a text is trimmed: no line starts or ends with white space.\<close>

definition lines_trimmed :: "jstring \<Rightarrow> bool" where
  "lines_trimmed s = list_all (\<lambda>l. trim l = l) (split_on NL s)"

text \<open>What the first loop of the import keeps true of its two variables.\<close>

definition blocks_inv :: "jstring list \<times> jstring \<Rightarrow> bool" where
  "blocks_inv st = (case st of (blocks, cur) \<Rightarrow> list_all lines_trimmed blocks \<and> lines_trimmed cur)"

text \<open>
  What the round trip needs of the host's locale: each month name is a non-empty string of
  ASCII letters that \<open>getMonthIndex\<close> resolves to its own month, and each weekday name
  is a non-empty string of ASCII letters.
\<close>

definition locale_ok :: "host_locale \<Rightarrow> bool" where
  "locale_ok loc =
     (list_all (\<lambda>i. month_long_upper loc i \<noteq> [] \<and> list_all is_alpha_i (month_long_upper loc i)
                    \<and> getMonthIndex loc (month_long_upper loc i) = Some i) [0..<12]
      \<and> list_all (\<lambda>i. weekday_long_upper loc i \<noteq> [] \<and> list_all is_alpha_i (weekday_long_upper loc i))
           [0..<7])"

text \<open>
  A date string in canonical form with a year of four digits: it parses to a valid date,
  \<open>formatDate\<close> prints that date as the same string, and the year is from 1000 to 9999.
\<close>

definition canonical_date :: "jstring \<Rightarrow> bool" where
  "canonical_date s =
     (case parseDate s of
        None \<Rightarrow> False
      | Some dn \<Rightarrow> formatDate dn = s \<and> 1000 \<le> getFullYear dn \<and> getFullYear dn \<le> 9999)"

text \<open>No line of a diary text, once trimmed, passes the test of a header line.\<close>

definition no_header_lines :: "jstring \<Rightarrow> bool" where
  "no_header_lines d = list_all (\<lambda>l. \<not> isNewEntry (trim l)) (split_on NL d)"

text \<open>
  The entry that comes back for an exported entry: the same date and mood, and the
  normalised diary with every line trimmed and then the whole trimmed.
\<close>

definition imported :: "MoodEntry \<Rightarrow> MoodEntry" where
  "imported e = \<lparr> date = date e, mood = mood e,
      diary = trim (join_with [NL] (map trim (split_on NL (cleanupTags (diary e))))) \<rparr>"

text \<open>
  For the proofs about the first loop of the import: the block pushed for a current block
  (none when it trims to nothing), the blocks once the loop is over, the header line of an
  exported entry, and the text the loop has gathered after a header line and its body
  lines followed by one blank line.
\<close>

definition flush :: "jstring \<Rightarrow> jstring list" where
  "flush cur = (if trim cur \<noteq> [] then [trim cur] else [])"

definition finish :: "jstring list \<times> jstring \<Rightarrow> jstring list" where
  "finish st = (case st of (blocks, cur) \<Rightarrow> blocks @ flush cur)"

definition header :: "host_locale \<Rightarrow> MoodColor \<Rightarrow> int \<Rightarrow> jstring" where
  "header loc m dn = MOOD_EMOJIS m @ [32] @ formatDisplayDate loc (Some dn)"

definition header_ok :: "host_locale \<Rightarrow> int \<Rightarrow> bool" where
  "header_ok loc dn = (locale_ok loc \<and> 1000 \<le> getFullYear dn \<and> getFullYear dn \<le> 9999)"

definition block_text :: "jstring \<Rightarrow> jstring list \<Rightarrow> jstring" where
  "block_text h ts = h @ concat (map (\<lambda>t. NL # trim t) (ts @ [[]]))"

definition block_ok :: "jstring \<times> jstring list \<Rightarrow> bool" where
  "block_ok p = (case p of (h, ts) \<Rightarrow>
     isNewEntry h \<and> trim h = h \<and> h \<noteq> [] \<and> list_all (\<lambda>t. \<not> isNewEntry (trim t)) ts)"

section \<open>Properties of the tag normaliser\<close>

subsection \<open>Sets, the stack, and the token reading of the loop\<close>

lemma foldl_set_add: "distinct acc \<Longrightarrow> distinct (foldl set_add acc xs) \<and> set (foldl set_add acc xs) = set acc \<union> set xs"
  by (induction xs arbitrary: acc) (auto simp: set_add_def)

lemma distinct_new_Set [simp]: "distinct (new_Set xs)"
  using foldl_set_add [of "[]" xs] by (simp add: new_Set_def)

lemma set_new_Set [simp]: "set (new_Set xs) = set xs"
  using foldl_set_add [of "[]" xs] by (simp add: new_Set_def)

lemma foldl_set_add_distinct: "distinct (acc @ xs) \<Longrightarrow> foldl set_add acc xs = acc @ xs"
  by (induction xs arbitrary: acc) (auto simp: set_add_def)

lemma new_Set_distinct: "distinct xs \<Longrightarrow> new_Set xs = xs"
  using foldl_set_add_distinct [of "[]" xs] by (simp add: new_Set_def)

lemma new_Set_idem [simp]: "new_Set (new_Set xs) = new_Set xs"
  by (simp add: new_Set_distinct)

lemma close_tag_remove1: "close_tag st t = remove1 t st"
  unfolding close_tag_def splice1_def
  by (induction st) (auto split: option.splits)

lemma scan_snd: "snd (scan s segs st cur) = (stack_toks (tokens s) st, cur_toks (tokens s) cur)"
  by (induction s segs st cur rule: scan.induct) (auto split: option.splits)

lemma scan_push:
  "(case scan s segs st cur of (a, b, c) \<Rightarrow> push_segment a b c) = segs @ segs_toks (tokens s) st cur"
proof (induction s segs st cur rule: scan.induct)
  case (1 segments tagStack currentText)
  then show ?case by (simp add: push_segment_def)
next
  case (2 c cs segments tagStack currentText)
  then show ?case by (auto split: option.splits simp: push_segment_def)
qed

lemma segments_of_tokens: "segments_of s = segs_toks (tokens s) [] []"
  using scan_push [of s "[]" "[]" "[]"] by (simp add: segments_of_def)

lemma stack_after_tokens: "stack_after s = stack_toks (tokens s) []"
  using scan_snd [of s "[]" "[]" "[]"]
  by (cases "scan s [] [] []") (simp add: stack_after_def)

lemma emit_emit_from: "emit segs act res = res @ emit_from act segs"
  by (induction segs act res rule: emit.induct) (auto simp: Let_def)

lemma cleanupTags_tokens: "cleanupTags s = emit_from [] (segs_toks (tokens s) [] [])"
  by (simp add: cleanupTags_def emit_emit_from segments_of_tokens)


lemma tag_of_tag_char [simp]: "tag_of (tag_char t) = Some t"
  by (cases t) (simp_all add: tag_of_def)

lemma tag_char_neq [simp]: "tag_char t \<noteq> GT" "tag_char t \<noteq> LT" "tag_char t \<noteq> SLASH"
  by (cases t; simp add: GT_def LT_def SLASH_def)+


lemma tagMatch_close: "tagMatch (close_str t @ r) = Some (True, t)"
  by (simp add: tagMatch_def close_str_def)


lemma tokens_close: "tokens (close_str t @ r) = Tg True t # tokens r"
proof -
  have "tokens (LT # SLASH # tag_char t # GT # r) = Tg True t # tokens r"
    using tagMatch_close [of t r] by (simp add: close_str_def match_length_def)
  then show ?thesis by (simp add: close_str_def)
qed





lemma push_segment_Nil [simp]: "push_segment segs st [] = segs"
  by (simp add: push_segment_def)








lemma tagMatch_Some_length: "tagMatch p = Some (cl, t) \<Longrightarrow> match_length cl \<le> length p"
  by (auto simp: tagMatch_def match_length_def split: list.splits if_splits)

lemma tag_of_LT [simp]: "tag_of LT = None"
  by (simp add: tag_of_def LT_def)

lemma LT_neq [simp]: "LT \<noteq> GT" "LT \<noteq> SLASH"
  by (simp_all add: LT_def GT_def SLASH_def)

lemma tagMatch_append_lt: "p \<noteq> [] \<Longrightarrow> tagMatch (p @ LT # r) = tagMatch p"
proof -
  assume "p \<noteq> []"
  then obtain a p1 where p: "p = a # p1" by (cases p) auto
  show ?thesis
  proof (cases p1)
    case Nil
    with p show ?thesis by (simp add: tagMatch_def split: list.splits)
  next
    case (Cons b p2)
    note p1 = this
    show ?thesis
    proof (cases p2)
      case Nil
      with p p1 show ?thesis by (simp add: tagMatch_def split: list.splits)
    next
      case (Cons c p3)
      with p p1 show ?thesis by (cases p3) (simp_all add: tagMatch_def)
    qed
  qed
qed

lemma tokens_append_lt: "tokens (p @ LT # r) = tokens p @ tokens (LT # r)"
proof (induction p rule: tokens.induct)
  case 1
  show ?case by (simp del: tokens.simps(2))
next
  case (2 c cs)
  have m: "tagMatch (c # cs @ LT # r) = tagMatch (c # cs)"
    using tagMatch_append_lt [of "c # cs" r] by simp
  note u1 = tokens.simps(2) [of c "cs @ LT # r"] and u2 = tokens.simps(2) [of c cs]
  show ?case
  proof (cases "tagMatch (c # cs)")
    case None
    from 2(1) [OF None] have "tokens (cs @ LT # r) = tokens cs @ tokens (LT # r)" .
    then have "tokens (c # cs @ LT # r) = tokens (c # cs) @ tokens (LT # r)"
      unfolding u1 u2 m None by (simp del: tokens.simps)
    then show ?thesis by (simp del: tokens.simps)
  next
    case (Some q)
    obtain cl t where q: "q = (cl, t)" by (cases q)
    from Some q have len: "match_length cl \<le> length (c # cs)"
      by (intro tagMatch_Some_length) simp
    have "drop (match_length cl) ((c # cs) @ LT # r)
          = drop (match_length cl) (c # cs) @ drop (match_length cl - length (c # cs)) (LT # r)"
      by (rule drop_append)
    moreover have "match_length cl - length (c # cs) = 0" using len by simp
    ultimately have d: "drop (match_length cl) (c # cs @ LT # r) = drop (match_length cl) (c # cs) @ LT # r"
      by simp
    from 2(2) [OF Some [unfolded q] refl]
    have "tokens (drop (match_length cl) (c # cs) @ LT # r)
          = tokens (drop (match_length cl) (c # cs)) @ tokens (LT # r)" .
    then have "tokens (c # cs @ LT # r) = tokens (c # cs) @ tokens (LT # r)"
      unfolding u1 u2 m Some q by (simp del: tokens.simps add: d)
    then show ?thesis by (simp del: tokens.simps)
  qed
qed

lemma tokens_before_close: "tokens (pre @ close_str t @ post) = tokens pre @ Tg True t # tokens post"
proof -
  have "tokens (pre @ LT # SLASH # tag_char t # GT # post) = tokens pre @ tokens (LT # SLASH # tag_char t # GT # post)"
    by (rule tokens_append_lt)
  moreover have "tokens (LT # SLASH # tag_char t # GT # post) = Tg True t # tokens post"
    using tokens_close [of t post] by (simp add: close_str_def)
  ultimately show ?thesis by (simp add: close_str_def)
qed




lemma filter_not_self [simp]: "filter (\<lambda>t. t \<notin> set S) S = []"
  by (simp add: filter_empty_conv)

lemma emit_from_merge:
  "emit_from A (push_segment [] st cur @ push_segment [] st cur2 @ R)
   = emit_from A (push_segment [] st (cur @ cur2) @ R)"
  by (simp add: push_segment_def)

lemma emit_from_carry:
  "emit_from A (push_segment [] st cur @ segs_toks ys st cur2) = emit_from A (segs_toks ys st (cur @ cur2))"
proof (induction ys arbitrary: cur2)
  case Nil
  show ?case using emit_from_merge [of A st cur cur2 "[]"] by simp
next
  case (Cons y ys)
  show ?case
  proof (cases y)
    case (Ch c)
    with Cons [of "cur2 @ [c]"] show ?thesis by simp
  next
    case (Tg cl u)
    then show ?thesis
      using emit_from_merge [of A st cur cur2 "segs_toks ys (update_stack st cl u) []"] by simp
  qed
qed

lemma emit_from_push_cong:
  "(\<And>B. emit_from B X = emit_from B Y) \<Longrightarrow>
   emit_from A (push_segment [] st cur @ X) = emit_from A (push_segment [] st cur @ Y)"
  by (simp add: push_segment_def)

lemma unmatched_close_toks:
  "t \<notin> set (stack_toks xs st) \<Longrightarrow>
   emit_from A (segs_toks (xs @ Tg True t # ys) st cur) = emit_from A (segs_toks (xs @ ys) st cur)"
proof (induction xs st cur arbitrary: A rule: segs_toks.induct)
  case (1 st cur)
  then have "close_tag st t = st" by (simp add: close_tag_remove1 remove1_idem)
  then show ?case using emit_from_carry [of A st cur ys "[]"] by (simp add: update_stack_def)
next
  case (2 c ts st cur)
  then show ?case by simp
next
  case (3 isClosing u ts st cur)
  then have "emit_from B (segs_toks (ts @ Tg True t # ys) (update_stack st isClosing u) [])
      = emit_from B (segs_toks (ts @ ys) (update_stack st isClosing u) [])" for B
    by simp
  then have "emit_from A (push_segment [] st cur @ segs_toks (ts @ Tg True t # ys) (update_stack st isClosing u) [])
      = emit_from A (push_segment [] st cur @ segs_toks (ts @ ys) (update_stack st isClosing u) [])"
    by (rule emit_from_push_cong)
  then show ?case by simp
qed


subsection \<open>Closing a style that is open more than once\<close>



subsection \<open>Idempotence\<close>




subsection \<open>A close marker for a style that is not open\<close>

text \<open>
  C6 (amended). A close tag for a style that is not active where the tag stands can be
  deleted without changing the output, for bold, italic and underline alike, provided
  the text before the tag and the text after it, once joined, are still read as before:
  the deletion does not make a new tag out of the characters around it.
\<close>

theorem unmatched_close_absorbed:
  assumes "t \<notin> set (stack_after pre)" and "tokens (pre @ post) = tokens pre @ tokens post"
  shows "cleanupTags (pre @ close_str t @ post) = cleanupTags (pre @ post)"
  using assms unmatched_close_toks [of t "tokens pre" "[]" "[]" "tokens post" "[]"]
  by (simp add: cleanupTags_tokens tokens_before_close stack_after_tokens)

theorem unmatched_close_absorbed_witness:
  "TagB \<notin> set (stack_after (js ''a<i>b''))
   \<and> tokens (js ''a<i>b'' @ js ''c</i>'') = tokens (js ''a<i>b'') @ tokens (js ''c</i>'')
   \<and> cleanupTags (js ''a<i>b'' @ close_str TagB @ js ''c</i>'') = cleanupTags (js ''a<i>b'' @ js ''c</i>'')"
proof -
  have h1: "TagB \<notin> set (stack_after (js ''a<i>b''))" by code_simp
  have h2: "tokens (js ''a<i>b'' @ js ''c</i>'') = tokens (js ''a<i>b'') @ tokens (js ''c</i>'')"
    by code_simp
  from unmatched_close_absorbed [OF h1 h2] h1 h2 show ?thesis by blast
qed

text \<open>
  C6 as stated fails: in \<open><</b>b>x\<close> bold is not active at the close tag, and
  deleting the tag leaves \<open><b>x\<close>, in which the characters around it have become
  an opening tag.
\<close>

theorem unmatched_close_counterexample:
  "TagB \<notin> set (stack_after (js ''<''))
   \<and> cleanupTags (js ''<'' @ close_str TagB @ js ''b>x'') = js ''<b>x''
   \<and> cleanupTags (js ''<'' @ js ''b>x'') = js ''<b>x</b>''
   \<and> cleanupTags (js ''<'' @ close_str TagB @ js ''b>x'') \<noteq> cleanupTags (js ''<'' @ js ''b>x'')"
  by code_simp

section \<open>Properties of the export\<close>

lemma trim_Nil_iff: "trim s = [] \<longleftrightarrow> list_all is_ws s"
proof
  assume "trim s = []"
  then have a: "\<forall>x\<in>set (dropWhile is_ws s). is_ws x"
    by (simp add: trim_def dropWhile_eq_Nil_conv)
  have "dropWhile is_ws s = []"
  proof (rule ccontr)
    assume n: "dropWhile is_ws s \<noteq> []"
    then have "\<not> is_ws (hd (dropWhile is_ws s))" by (rule hd_dropWhile)
    moreover have "hd (dropWhile is_ws s) \<in> set (dropWhile is_ws s)" using n by simp
    ultimately show False using a by blast
  qed
  then show "list_all is_ws s" by (simp add: dropWhile_eq_Nil_conv list_all_iff)
next
  assume "list_all is_ws s"
  then have "dropWhile is_ws s = []" by (simp add: dropWhile_eq_Nil_conv list_all_iff)
  then show "trim s = []" by (simp add: trim_def del: dropWhile_eq_Nil_conv)
qed

lemma getValidEntries_iff:
  "getValidEntries entries = filter (\<lambda>e. mood e \<noteq> Grey \<or> \<not> list_all is_ws (diary e)) entries"
  by (simp add: getValidEntries_def trim_Nil_iff)

lemma set_insert_by [simp]: "set (insert_by cmp x ys) = insert x (set ys)"
  by (induction ys) auto

lemma mset_insert_by [simp]: "mset (insert_by cmp x ys) = add_mset x (mset ys)"
  by (induction ys) auto

lemma mset_sortEntriesByDate [simp]: "mset (sortEntriesByDate es asc) = mset es"
  unfolding sortEntriesByDate_def by (induction es) auto

lemma set_sortEntriesByDate [simp]: "set (sortEntriesByDate es asc) = set es"
  using mset_sortEntriesByDate [of es asc] by (metis set_mset_mset)




subsection \<open>No valid entry\<close>

text \<open>
  C9. When no entry of the list is valid (every mood is grey and every diary is empty or
  white space only), \<open>exportData\<close> returns the fixed text
  \<open>No entries to export.\<close> The function has no failing branch: it returns a string
  for every list.
\<close>

theorem export_sentinel:
  assumes "\<forall>e\<in>set entries. mood e = Grey \<and> list_all is_ws (diary e)"
  shows "exportData loc entries = js ''No entries to export.''"
proof -
  from assms have "getValidEntries entries = []"
    by (auto simp: getValidEntries_iff filter_empty_conv)
  then show ?thesis by (simp add: exportData_def)
qed

theorem export_sentinel_witness:
  "list_all is_ws (js ''  '')
   \<and> exportData en_US [\<lparr>date = js ''2024-01-01'', mood = Grey, diary = js ''  ''\<rparr>]
       = js ''No entries to export.''"
proof -
  have w: "list_all is_ws (js ''  '')" by (simp add: js_def is_ws_def)
  then have h: "\<forall>e\<in>set [\<lparr>date = js ''2024-01-01'', mood = Grey, diary = js ''  ''\<rparr>].
       mood e = Grey \<and> list_all is_ws (diary e)"
    by simp
  from export_sentinel [OF h] w show ?thesis by blast
qed

subsection \<open>Which entries are exported\<close>

text \<open>
  C7. The entries for which \<open>exportData\<close> writes a block are, counted with
  multiplicity, exactly the entries of the list whose mood is not grey or whose diary
  holds a character that is not white space; the output is the fixed text when there is
  none, and their blocks joined by a blank line otherwise.
\<close>

theorem export_validity_filter:
  "\<exists>sortedEntries.
     mset sortedEntries = filter_mset (\<lambda>e. mood e \<noteq> Grey \<or> \<not> list_all is_ws (diary e)) (mset entries)
     \<and> exportData loc entries =
         (if sortedEntries = [] then js ''No entries to export.''
          else join_with [NL, NL] (map (entry_block loc) sortedEntries))"
proof -
  let ?out = "sortEntriesByDate (getValidEntries entries) False"
  have e: "?out = [] \<longleftrightarrow> getValidEntries entries = []"
    using mset_sortEntriesByDate [of "getValidEntries entries" False] by (metis mset_zero_iff)
  have "mset ?out = filter_mset (\<lambda>e. mood e \<noteq> Grey \<or> \<not> list_all is_ws (diary e)) (mset entries)"
    by (simp add: getValidEntries_iff)
  moreover have "exportData loc entries =
         (if ?out = [] then js ''No entries to export.''
          else join_with [NL, NL] (map (entry_block loc) ?out))"
    unfolding e by (simp add: exportData_def Let_def)
  ultimately show ?thesis by blast
qed


text \<open>The theorem on a list of two: the grey entry with the empty diary writes no block,
  the grey entry with the diary \<open>hi\<close> writes one.\<close>

theorem export_validity_filter_witness:
  "exportData en_US [\<lparr>date = js ''2024-01-01'', mood = Grey, diary = js ''''\<rparr>,
                     \<lparr>date = js ''2024-01-02'', mood = Grey, diary = js ''hi''\<rparr>]
     = MOOD_EMOJIS Grey @ js '' JANUARY 2 2024, TUESDAY'' @ [NL] @ js ''hi''"
proof -
  let ?a = "\<lparr>date = js ''2024-01-01'', mood = Grey, diary = js ''''\<rparr>"
  let ?b = "\<lparr>date = js ''2024-01-02'', mood = Grey, diary = js ''hi''\<rparr>"
  from export_validity_filter [of "[?a, ?b]" en_US]
  obtain se where m: "mset se = filter_mset (\<lambda>e. mood e \<noteq> Grey \<or> \<not> list_all is_ws (diary e)) (mset [?a, ?b])"
    and x: "exportData en_US [?a, ?b] =
         (if se = [] then js ''No entries to export.''
          else join_with [NL, NL] (map (entry_block en_US) se))"
    by blast
  have "filter_mset (\<lambda>e. mood e \<noteq> Grey \<or> \<not> list_all is_ws (diary e)) (mset [?a, ?b]) = {#?b#}"
    by (simp add: js_def is_ws_def)
  with m have "se = [?b]" by simp
  with x have "exportData en_US [?a, ?b] = entry_block en_US ?b" by simp
  moreover have "entry_block en_US ?b = MOOD_EMOJIS Grey @ js '' JANUARY 2 2024, TUESDAY'' @ [NL] @ js ''hi''"
    by code_simp
  ultimately show ?thesis by simp
qed


text \<open>The two entries of the claim, each exported alone.\<close>

lemma export_validity_examples:
  "exportData en_US [\<lparr>date = js ''2024-01-01'', mood = Grey, diary = js ''''\<rparr>]
     = js ''No entries to export.''"
  "exportData en_US [\<lparr>date = js ''2024-01-01'', mood = Grey, diary = js ''hi''\<rparr>]
     = MOOD_EMOJIS Grey @ js '' JANUARY 1 2024, MONDAY'' @ [NL] @ js ''hi''"
  by code_simp+

subsection \<open>The order of the blocks\<close>




section \<open>Properties of the import\<close>

lemma parse_blocks_map_filter:
  "parse_blocks loc blocks entries = entries @ List.map_filter (parse_block loc) blocks"
  by (induction blocks arbitrary: entries) (auto simp: List.map_filter_simps split: option.splits)

subsection \<open>When the import fails\<close>

lemma importData_cases:
  "importData loc content =
     (if list_all is_ws content then Inl FileEmpty
      else case List.map_filter (parse_block loc) (blocks_of (split_on NL (trim content))) of
             [] \<Rightarrow> Inl NoValidEntries
           | e # es \<Rightarrow> Inr (e # es))"
  by (simp add: importData_def trim_Nil_iff parse_blocks_map_filter Let_def split: list.splits)

text \<open>
  C4. \<open>importData\<close> fails in exactly two cases: with the error for an empty file
  exactly when the content is empty or white space only; and with the error for no valid
  entries exactly when the content is not so and no block of it yields an entry. In every
  other case it returns the entries of the blocks that parse, in order; a block that does
  not parse is left out and does not stop the others.
\<close>

theorem import_error_iff:
  "(importData loc content = Inl FileEmpty \<longleftrightarrow> list_all is_ws content)
   \<and> (importData loc content = Inl NoValidEntries \<longleftrightarrow>
        \<not> list_all is_ws content
        \<and> List.map_filter (parse_block loc) (blocks_of (split_on NL (trim content))) = [])
   \<and> (\<not> list_all is_ws content
        \<and> List.map_filter (parse_block loc) (blocks_of (split_on NL (trim content))) \<noteq> []
      \<longrightarrow> importData loc content
          = Inr (List.map_filter (parse_block loc) (blocks_of (split_on NL (trim content)))))"
  unfolding importData_cases by (auto split: list.splits)

text \<open>A content with a stray line and a block whose month name is unknown, followed by
  a block that parses: the result is the one entry.\<close>

theorem import_error_iff_witness:
  "\<not> list_all is_ws (js ''junk'' @ [NL] @ MOOD_EMOJIS Red @ js '' XXXX 1 2024, MONDAY'' @ [NL]
      @ js ''body'' @ [NL] @ MOOD_EMOJIS Blue @ js '' MARCH 5 2024, TUESDAY'' @ [NL] @ js ''ok'')
   \<and> importData en_US (js ''junk'' @ [NL] @ MOOD_EMOJIS Red @ js '' XXXX 1 2024, MONDAY'' @ [NL]
      @ js ''body'' @ [NL] @ MOOD_EMOJIS Blue @ js '' MARCH 5 2024, TUESDAY'' @ [NL] @ js ''ok'')
   = Inr [\<lparr>date = js ''2024-03-05'', mood = Blue, diary = js ''ok''\<rparr>]"
proof -
  let ?c = "js ''junk'' @ [NL] @ MOOD_EMOJIS Red @ js '' XXXX 1 2024, MONDAY'' @ [NL]
      @ js ''body'' @ [NL] @ MOOD_EMOJIS Blue @ js '' MARCH 5 2024, TUESDAY'' @ [NL] @ js ''ok''"
  have w: "\<not> list_all is_ws ?c" by code_simp
  have m: "List.map_filter (parse_block en_US) (blocks_of (split_on NL (trim ?c)))
      = [\<lparr>date = js ''2024-03-05'', mood = Blue, diary = js ''ok''\<rparr>]"
    by code_simp
  then have n: "List.map_filter (parse_block en_US) (blocks_of (split_on NL (trim ?c))) \<noteq> []"
    by simp
  from import_error_iff [of en_US ?c] w n
  have "importData en_US ?c = Inr (List.map_filter (parse_block en_US) (blocks_of (split_on NL (trim ?c))))"
    by blast
  with m w show ?thesis by simp
qed

subsection \<open>A day number beyond the end of its month\<close>







lemma list_all_takeWhile [simp]: "list_all P (takeWhile P xs)"
  by (induction xs) auto











subsection \<open>Lines, and the white space around them\<close>

lemma split_on_not_Nil [simp]: "split_on sep s \<noteq> []"
  by (induction s) (auto split: list.splits)

lemma split_on_no_sep: "sep \<notin> set s \<Longrightarrow> split_on sep s = [s]"
  by (induction s) auto

lemma split_on_append_sep: "split_on sep (a @ sep # b) = split_on sep a @ split_on sep b"
proof (induction a)
  case Nil
  show ?case by simp
next
  case (Cons c a)
  obtain l ls where s: "split_on sep a = l # ls"
    using split_on_not_Nil [of sep a] by (cases "split_on sep a") auto
  with Cons show ?case by simp
qed

lemma split_on_snoc:
  "c \<noteq> sep \<Longrightarrow> split_on sep (xs @ [c]) = butlast (split_on sep xs) @ [last (split_on sep xs) @ [c]]"
proof (induction xs)
  case Nil
  then show ?case by simp
next
  case (Cons x xs)
  obtain l ls where s: "split_on sep xs = l # ls"
    using split_on_not_Nil [of sep xs] by (cases "split_on sep xs") auto
  with Cons show ?case by (cases "ls = []") auto
qed

lemma split_on_elem_no_sep: "l \<in> set (split_on sep s) \<Longrightarrow> sep \<notin> set l"
proof (induction s arbitrary: l)
  case Nil
  then show ?case by simp
next
  case (Cons c s)
  obtain k ks where s: "split_on sep s = k # ks"
    using split_on_not_Nil [of sep s] by (cases "split_on sep s") auto
  with Cons show ?case by (auto split: if_splits)
qed

lemma split_on_join:
  "ls \<noteq> [] \<Longrightarrow> \<forall>l\<in>set ls. sep \<notin> set l \<Longrightarrow> split_on sep (join_with [sep] ls) = ls"
proof (induction ls)
  case Nil
  then show ?case by simp
next
  case (Cons l ls)
  show ?case
  proof (cases ls)
    case Nil
    with Cons.prems show ?thesis by (simp add: split_on_no_sep)
  next
    case (Cons v va)
    with Cons.IH Cons.prems have "split_on sep (join_with [sep] ls) = ls" by simp
    moreover have "join_with [sep] (l # ls) = l @ sep # join_with [sep] ls"
      using Cons by simp
    ultimately show ?thesis
      using Cons.prems split_on_append_sep [of sep l "join_with [sep] ls"]
      by (simp add: split_on_no_sep)
  qed
qed

lemma dropWhile_hd_id: "xs \<noteq> [] \<Longrightarrow> \<not> P (hd xs) \<Longrightarrow> dropWhile P xs = xs"
  by (cases xs) auto

lemma trim_fixed: "s = [] \<or> (\<not> is_ws (hd s) \<and> \<not> is_ws (last s)) \<Longrightarrow> trim s = s"
proof (cases "s = []")
  case True
  then show ?thesis by (simp add: trim_def)
next
  case False
  assume "s = [] \<or> (\<not> is_ws (hd s) \<and> \<not> is_ws (last s))"
  with False have h: "\<not> is_ws (hd s)" and l: "\<not> is_ws (last s)" by auto
  from False h have d: "dropWhile is_ws s = s" by (rule dropWhile_hd_id)
  have "rev s \<noteq> []" using False by simp
  moreover have "\<not> is_ws (hd (rev s))" using l False by (simp add: hd_rev)
  ultimately have "dropWhile is_ws (rev s) = rev s" by (rule dropWhile_hd_id)
  with d show ?thesis by (simp add: trim_def)
qed

lemma last_dropWhile: "dropWhile P xs \<noteq> [] \<Longrightarrow> last (dropWhile P xs) = last xs"
  by (induction xs) (auto split: if_splits)

lemma trim_ends: "trim s \<noteq> [] \<Longrightarrow> \<not> is_ws (hd (trim s)) \<and> \<not> is_ws (last (trim s))"
proof -
  assume n: "trim s \<noteq> []"
  let ?d = "dropWhile is_ws s"
  let ?e = "dropWhile is_ws (rev ?d)"
  from n have e: "?e \<noteq> []" by (simp add: trim_def)
  have d: "?d \<noteq> []"
  proof
    assume z: "?d = []"
    have "?e = []" unfolding z by simp
    with e show False by blast
  qed
  have "last (trim s) = hd ?e" using e by (simp add: trim_def last_rev)
  moreover have "\<not> is_ws (hd ?e)" using e by (rule hd_dropWhile)
  moreover have "hd (trim s) = last ?e" using e by (simp add: trim_def hd_rev)
  moreover have "last ?e = last (rev ?d)" using e by (rule last_dropWhile)
  moreover have "last (rev ?d) = hd ?d" using d by (simp add: last_rev)
  moreover have "\<not> is_ws (hd ?d)" using d by (rule hd_dropWhile)
  ultimately show ?thesis by simp
qed

lemma trim_trim [simp]: "trim (trim s) = trim s"
  using trim_ends [of s] by (intro trim_fixed) blast

lemma trim_fixed_iff: "trim s = s \<longleftrightarrow> s = [] \<or> (\<not> is_ws (hd s) \<and> \<not> is_ws (last s))"
  using trim_ends [of s] trim_fixed [of s] by auto

lemma set_trim: "x \<in> set (trim s) \<Longrightarrow> x \<in> set s"
proof -
  assume "x \<in> set (trim s)"
  then have "x \<in> set (dropWhile is_ws (rev (dropWhile is_ws s)))" by (simp add: trim_def)
  then have "x \<in> set (rev (dropWhile is_ws s))" by (rule set_dropWhileD)
  then have "x \<in> set (dropWhile is_ws s)" by simp
  then show ?thesis by (rule set_dropWhileD)
qed

lemma is_ws_NL [simp]: "is_ws NL"
  by (simp add: is_ws_def NL_def)

lemma lines_trimmed_Nil [simp]: "lines_trimmed []"
  by (simp add: lines_trimmed_def trim_def)

lemma lines_trimmed_lstrip: "lines_trimmed x \<Longrightarrow> lines_trimmed (dropWhile is_ws x)"
proof (induction x)
  case Nil
  then show ?case by simp
next
  case (Cons c cs)
  obtain l ls where s: "split_on NL cs = l # ls"
    using split_on_not_Nil [of NL cs] by (cases "split_on NL cs") auto
  show ?case
  proof (cases "is_ws c")
    case False
    with Cons.prems show ?thesis by simp
  next
    case True
    show ?thesis
    proof (cases "c = NL")
      case True
      with Cons.prems have "lines_trimmed cs" by (simp add: lines_trimmed_def)
      with Cons.IH True show ?thesis by simp
    next
      case False
      with Cons.prems s have "trim (c # l) = c # l" by (simp add: lines_trimmed_def)
      then have "\<not> is_ws c" by (simp add: trim_fixed_iff)
      with \<open>is_ws c\<close> show ?thesis by simp
    qed
  qed
qed

lemma lines_trimmed_rstrip: "lines_trimmed x \<Longrightarrow> lines_trimmed (rev (dropWhile is_ws (rev x)))"
proof (induction x rule: rev_induct)
  case Nil
  then show ?case by simp
next
  case (snoc c cs)
  show ?case
  proof (cases "is_ws c")
    case False
    with snoc.prems show ?thesis by simp
  next
    case True
    show ?thesis
    proof (cases "c = NL")
      case True
      have "split_on NL (cs @ NL # []) = split_on NL cs @ split_on NL []"
        by (rule split_on_append_sep)
      with snoc.prems True have "lines_trimmed cs" by (simp add: lines_trimmed_def)
      with snoc.IH \<open>is_ws c\<close> show ?thesis by simp
    next
      case False
      from snoc.prems split_on_snoc [OF False, of cs]
      have "trim (last (split_on NL cs) @ [c]) = last (split_on NL cs) @ [c]"
        by (simp add: lines_trimmed_def)
      then have "\<not> is_ws c" by (simp add: trim_fixed_iff)
      with \<open>is_ws c\<close> show ?thesis by simp
    qed
  qed
qed

lemma lines_trimmed_trim: "lines_trimmed x \<Longrightarrow> lines_trimmed (trim x)"
  unfolding trim_def by (intro lines_trimmed_rstrip lines_trimmed_lstrip)

lemma lines_trimmed_line: "NL \<notin> set l \<Longrightarrow> lines_trimmed (trim l)"
proof -
  assume "NL \<notin> set l"
  then have "NL \<notin> set (trim l)" using set_trim [of NL l] by auto
  then show ?thesis by (simp add: lines_trimmed_def split_on_no_sep)
qed

lemma lines_trimmed_append:
  "lines_trimmed a \<Longrightarrow> lines_trimmed b \<Longrightarrow> lines_trimmed (a @ NL # b)"
  by (simp add: lines_trimmed_def split_on_append_sep)

lemma line_step_inv: "blocks_inv st \<Longrightarrow> NL \<notin> set line \<Longrightarrow> blocks_inv (line_step st line)"
proof -
  assume i: "blocks_inv st" and n: "NL \<notin> set line"
  obtain blocks cur where st: "st = (blocks, cur)" by (cases st)
  from n have t: "lines_trimmed (trim line)" by (rule lines_trimmed_line)
  from i st have b: "list_all lines_trimmed blocks" and c: "lines_trimmed cur"
    by (simp_all add: blocks_inv_def)
  from c have tc: "lines_trimmed (trim cur)" by (rule lines_trimmed_trim)
  from c t have a: "lines_trimmed (cur @ NL # trim line)" by (rule lines_trimmed_append)
  show ?thesis
    using b c t tc a by (simp add: line_step_def st blocks_inv_def Let_def)
qed

lemma foldl_line_step_inv:
  "blocks_inv st \<Longrightarrow> \<forall>l\<in>set ls. NL \<notin> set l \<Longrightarrow> blocks_inv (foldl line_step st ls)"
  by (induction ls arbitrary: st) (simp_all add: line_step_inv)

lemma blocks_of_trimmed:
  "\<forall>l\<in>set ls. NL \<notin> set l \<Longrightarrow> list_all lines_trimmed (blocks_of ls)"
proof -
  assume a: "\<forall>l\<in>set ls. NL \<notin> set l"
  have "blocks_inv ([], [])" by (simp add: blocks_inv_def)
  from foldl_line_step_inv [OF this a] show ?thesis
    by (auto simp: blocks_of_def blocks_inv_def lines_trimmed_trim split: prod.splits)
qed

lemma parse_block_diary:
  assumes "parse_block loc block = Some e"
  shows "diary e = (if length (split_on NL block) > 1 then trim (join_with [NL] (tl (split_on NL block))) else [])"
  using assms by (auto simp: parse_block_def Let_def split: option.splits if_splits)

lemma parse_block_trimmed:
  assumes "lines_trimmed block" "parse_block loc block = Some e"
  shows "trim (diary e) = diary e \<and> lines_trimmed (diary e)"
proof (cases "length (split_on NL block) > 1")
  case False
  with parse_block_diary [OF assms(2)] show ?thesis by (simp add: trim_def)
next
  case True
  let ?ls = "tl (split_on NL block)"
  from True have ne: "?ls \<noteq> []" by (cases "split_on NL block") auto
  have sub: "set ?ls \<subseteq> set (split_on NL block)" by (simp add: list.set_sel(2) subsetI)
  then have ns: "\<forall>l\<in>set ?ls. NL \<notin> set l" using split_on_elem_no_sep by blast
  have "split_on NL (join_with [NL] ?ls) = ?ls" using ne ns by (rule split_on_join)
  moreover have "list_all (\<lambda>l. trim l = l) ?ls"
    using assms(1) sub by (auto simp: lines_trimmed_def list_all_iff)
  ultimately have "lines_trimmed (join_with [NL] ?ls)" by (simp add: lines_trimmed_def)
  then have "lines_trimmed (trim (join_with [NL] ?ls))" by (rule lines_trimmed_trim)
  with parse_block_diary [OF assms(2)] True show ?thesis by simp
qed


text \<open>
  C10. The diary of every entry that \<open>importData\<close> returns is trimmed as a whole, and
  each of its lines is trimmed: no line of it starts or ends with white space.
\<close>

theorem import_diary_trimmed:
  assumes "importData loc content = Inr entries" and "e \<in> set entries"
  shows "trim (diary e) = diary e \<and> list_all (\<lambda>l. trim l = l) (split_on NL (diary e))"
proof -
  let ?bs = "blocks_of (split_on NL (trim content))"
  from assms(1) have "entries = List.map_filter (parse_block loc) ?bs"
    by (auto simp: importData_def Let_def parse_blocks_map_filter split: if_splits)
  with assms(2) obtain b where b: "b \<in> set ?bs" "parse_block loc b = Some e"
    by (auto simp: List.map_filter_def)
  have "\<forall>l\<in>set (split_on NL (trim content)). NL \<notin> set l"
    using split_on_elem_no_sep by blast
  then have "list_all lines_trimmed ?bs" by (rule blocks_of_trimmed)
  with b(1) have "lines_trimmed b" by (simp add: list_all_iff)
  from parse_block_trimmed [OF this b(2)] show ?thesis by (simp add: lines_trimmed_def)
qed

text \<open>Two diary lines with spaces around them are imported without the spaces.\<close>

theorem import_diary_trimmed_witness:
  "importData en_US (MOOD_EMOJIS Red @ js '' JANUARY 1 2024, MONDAY'' @ [NL] @ js ''  hello  ''
       @ [NL] @ js ''   world '')
     = Inr [\<lparr>date = js ''2024-01-01'', mood = Red, diary = js ''hello'' @ [NL] @ js ''world''\<rparr>]
   \<and> trim (js ''hello'' @ [NL] @ js ''world'') = js ''hello'' @ [NL] @ js ''world''
   \<and> list_all (\<lambda>l. trim l = l) (split_on NL (js ''hello'' @ [NL] @ js ''world''))"
proof -
  let ?c = "MOOD_EMOJIS Red @ js '' JANUARY 1 2024, MONDAY'' @ [NL] @ js ''  hello  ''
       @ [NL] @ js ''   world ''"
  let ?e = "\<lparr>date = js ''2024-01-01'', mood = Red, diary = js ''hello'' @ [NL] @ js ''world''\<rparr>"
  have i: "importData en_US ?c = Inr [?e]" by code_simp
  have "?e \<in> set [?e]" by simp
  from import_diary_trimmed [OF i this] i show ?thesis by simp
qed

section \<open>The round trip of export and import\<close>

subsection \<open>Day numbers and calendar fields\<close>

lemma div_succ_int:
  fixes x n :: int
  assumes "1 < n"
  shows "(x + 1) div n = x div n + (if (x + 1) mod n = 0 then 1 else 0)"
proof -
  have r: "0 \<le> x mod n" "x mod n < n" using assms by simp_all
  have e: "(x + 1) div n = x div n + 1 div n + (x mod n + 1 mod n) div n"
    by (rule div_add1_eq)
  have o: "1 div n = 0" "1 mod n = 1" using assms by simp_all
  have m: "(x + 1) mod n = (x mod n + 1) mod n" by (simp add: mod_add_left_eq)
  show ?thesis
  proof (cases "x mod n + 1 = n")
    case True
    then show ?thesis using e o m assms by simp
  next
    case False
    with r have l: "x mod n + 1 < n" by simp
    then have "(x mod n + 1) div n = 0" "(x mod n + 1) mod n = x mod n + 1" using r by simp_all
    then show ?thesis using e o m r by simp
  qed
qed

lemma mod_shift:
  "((y::int) - 1968) mod 4 = 0 \<longleftrightarrow> y mod 4 = 0"
  "((y::int) - 1900) mod 100 = 0 \<longleftrightarrow> y mod 100 = 0"
  "((y::int) - 1600) mod 400 = 0 \<longleftrightarrow> y mod 400 = 0"
proof -
  have "y - 1968 = y + 4 * (- 492)" by simp
  then have "(y - 1968) mod 4 = (y + 4 * (- 492)) mod 4" by (rule arg_cong)
  also have "\<dots> = y mod 4" by (rule mod_mult_self2)
  finally show "(y - 1968) mod 4 = 0 \<longleftrightarrow> y mod 4 = 0" by (rule arg_cong)
  have "y - 1900 = y + 100 * (- 19)" by simp
  then have "(y - 1900) mod 100 = (y + 100 * (- 19)) mod 100" by (rule arg_cong)
  also have "\<dots> = y mod 100" by (rule mod_mult_self2)
  finally show "(y - 1900) mod 100 = 0 \<longleftrightarrow> y mod 100 = 0" by (rule arg_cong)
  have "y - 1600 = y + 400 * (- 4)" by simp
  then have "(y - 1600) mod 400 = (y + 400 * (- 4)) mod 400" by (rule arg_cong)
  also have "\<dots> = y mod 400" by (rule mod_mult_self2)
  finally show "(y - 1600) mod 400 = 0 \<longleftrightarrow> y mod 400 = 0" by (rule arg_cong)
qed

lemma mod_dvd_trans:
  fixes y a b :: int
  assumes "y mod a = 0" "b dvd a"
  shows "y mod b = 0"
proof -
  from assms(1) have "a dvd y" by (rule mod_0_imp_dvd)
  with assms(2) have "b dvd y" by (rule dvd_trans)
  then show ?thesis by (rule dvd_imp_mod_0)
qed

lemma day_from_year_Suc: "day_from_year (y + 1) = day_from_year y + days_in_year y"
proof -
  have "(y - 1968) div 4 = (y - 1969) div 4 + (if (y - 1968) mod 4 = 0 then 1 else 0)"
    using div_succ_int [of 4 "y - 1969"] by simp
  then have a: "(y - 1968) div 4 = (y - 1969) div 4 + (if y mod 4 = 0 then 1 else 0)"
    by (simp only: mod_shift)
  have "(y - 1900) div 100 = (y - 1901) div 100 + (if (y - 1900) mod 100 = 0 then 1 else 0)"
    using div_succ_int [of 100 "y - 1901"] by simp
  then have b: "(y - 1900) div 100 = (y - 1901) div 100 + (if y mod 100 = 0 then 1 else 0)"
    by (simp only: mod_shift)
  have "(y - 1600) div 400 = (y - 1601) div 400 + (if (y - 1600) mod 400 = 0 then 1 else 0)"
    using div_succ_int [of 400 "y - 1601"] by simp
  then have c: "(y - 1600) div 400 = (y - 1601) div 400 + (if y mod 400 = 0 then 1 else 0)"
    by (simp only: mod_shift)
  have d: "y mod 100 = 0 \<Longrightarrow> y mod 4 = 0"
    by (rule mod_dvd_trans [of y 100 4]) simp_all
  have f: "y mod 400 = 0 \<Longrightarrow> y mod 100 = 0"
    by (rule mod_dvd_trans [of y 400 100]) simp_all
  have s: "y + 1 - 1969 = y - 1968" "y + 1 - 1901 = y - 1900" "y + 1 - 1601 = y - 1600"
    "y + 1 - 1970 = y - 1969"
    by simp_all
  show ?thesis
    unfolding day_from_year_def days_in_year_def is_leap_def s a b c
    using d f by (cases "y mod 4 = 0"; cases "y mod 100 = 0"; cases "y mod 400 = 0") simp_all
qed

lemma day_from_year_1970 [simp]: "day_from_year 1970 = 0"
  by (simp add: day_from_year_def)

lemma year_step_inv:
  "year_step y d = (Y, k) \<Longrightarrow>
     day_from_year Y + k = day_from_year y + d \<and> 0 \<le> k \<and> k < days_in_year Y"
proof (induction y d rule: year_step.induct)
  case (1 y d)
  note unf = year_step.simps [of y d]
  show ?case
  proof (cases "d < 0")
    case True
    with "1.prems" unf have "year_step (y - 1) (d + days_in_year (y - 1)) = (Y, k)" by simp
    from "1.IH"(1) [OF True this] day_from_year_Suc [of "y - 1"] show ?thesis by simp
  next
    case False
    show ?thesis
    proof (cases "days_in_year y \<le> d")
      case True
      with False "1.prems" unf have "year_step (y + 1) (d - days_in_year y) = (Y, k)" by simp
      from "1.IH"(2) [OF False True this] day_from_year_Suc [of y] show ?thesis by simp
    next
      case nle: False
      with False "1.prems" unf have "Y = y" "k = d" by simp_all
      with False nle show ?thesis by simp
    qed
  qed
qed

lemma days_before_month_Suc: "days_before_month y (Suc m) = days_before_month y m + days_in_month y m"
  by (simp add: days_before_month_def)

lemma days_before_month_0 [simp]: "days_before_month y 0 = 0"
  by (simp add: days_before_month_def)

lemma month_step_inv:
  "month_step y m d = (M, k) \<Longrightarrow> m \<le> 11 \<Longrightarrow> 0 \<le> d \<Longrightarrow>
     days_before_month y M + k = days_before_month y m + d \<and> M \<le> 11 \<and> 0 \<le> k"
proof (induction y m d rule: month_step.induct)
  case (1 y m d)
  note unf = month_step.simps [of y m d]
  show ?case
  proof (cases "m < 11 \<and> days_in_month y m \<le> d")
    case True
    with "1.prems" unf have "month_step y (Suc m) (d - days_in_month y m) = (M, k)" by simp
    from "1.IH" [OF True this] True show ?thesis by (simp add: days_before_month_Suc)
  next
    case False
    with "1.prems" unf have "M = m" "k = d" by simp_all
    with "1.prems" show ?thesis by simp
  qed
qed

lemma civil_fields:
  "getMonth dn \<le> 11 \<and> 1 \<le> getDate dn
   \<and> make_day (getFullYear dn) (int (getMonth dn)) (getDate dn) = dn"
proof -
  obtain Y k where y: "year_step 1970 dn = (Y, k)" by (cases "year_step 1970 dn")
  obtain M j where m: "month_step Y 0 k = (M, j)" by (cases "month_step Y 0 k")
  from year_step_inv [OF y] have yk: "day_from_year Y + k = dn" "0 \<le> k" by simp_all
  from month_step_inv [OF m _ yk(2)] have mj: "days_before_month Y M + j = k" "M \<le> 11" "0 \<le> j"
    by simp_all
  have f: "getFullYear dn = Y" "getMonth dn = M" "getDate dn = j + 1"
    by (simp_all add: getFullYear_def getMonth_def getDate_def y m)
  have "int M div 12 = 0" "nat (int M mod 12) = M" using mj(2) by simp_all
  then have "make_day Y (int M) (j + 1) = day_from_year Y + days_before_month Y M + j"
    by (simp add: make_day_def Let_def)
  with yk mj f show ?thesis by simp
qed

lemma new_Date_fields:
  assumes "- 100000000 \<le> dn" "dn \<le> 100000000" "100 \<le> getFullYear dn"
  shows "new_Date (getFullYear dn) (int (getMonth dn)) (getDate dn) = Some dn"
  using assms civil_fields [of dn] by (simp add: new_Date_def Let_def)

lemma new_Date_range: "new_Date y m d = Some dn \<Longrightarrow> - 100000000 \<le> dn \<and> dn \<le> 100000000"
  by (auto simp: new_Date_def Let_def split: if_splits)

lemma parseDate_range: "parseDate s = Some dn \<Longrightarrow> - 100000000 \<le> dn \<and> dn \<le> 100000000"
  by (auto simp: parseDate_def split: list.splits option.splits dest: new_Date_range)

lemma show_nat_unfold: "show_nat n = (if n < 10 then [48 + n] else show_nat (n div 10) @ [48 + n mod 10])"
  by (rule show_nat.simps)

lemma show_nat_digits: "list_all is_digit (show_nat n) \<and> show_nat n \<noteq> []"
proof (induction n rule: show_nat.induct)
  case (1 n)
  show ?case
  proof (cases "n < 10")
    case True
    then show ?thesis by (subst show_nat_unfold, subst show_nat_unfold) (simp add: is_digit_def)
  next
    case False
    have "n mod 10 < 10" by simp
    then have "is_digit (48 + n mod 10)" unfolding is_digit_def by linarith
    with False "1.IH" show ?thesis
      by (subst show_nat_unfold, subst show_nat_unfold) simp
  qed
qed

lemma parseInt_show_nat: "parseInt (show_nat n) = int n"
proof -
  have "foldl (\<lambda>a c. 10 * a + (c - 48)) 0 (show_nat n) = n"
  proof (induction n rule: show_nat.induct)
    case (1 n)
    show ?case
    proof (cases "n < 10")
      case True
      then show ?thesis by (subst show_nat_unfold) simp
    next
      case False
      with "1.IH" show ?thesis by (subst show_nat_unfold) simp
    qed
  qed
  then show ?thesis by (simp add: parseInt_def)
qed

lemma length_show_nat: "1000 \<le> n \<Longrightarrow> n \<le> 9999 \<Longrightarrow> length (show_nat n) = 4"
proof -
  assume a: "1000 \<le> n" "n \<le> 9999"
  let ?a = "n div 10" and ?b = "n div 10 div 10" and ?c = "n div 10 div 10 div 10"
  have r: "\<not> n < 10" "\<not> ?a < 10" "\<not> ?b < 10" "?c < 10" using a by simp_all
  have "show_nat n = show_nat ?a @ [48 + n mod 10]" using r(1) by (subst show_nat_unfold) simp
  moreover have "show_nat ?a = show_nat ?b @ [48 + ?a mod 10]" using r(2) by (subst show_nat_unfold) simp
  moreover have "show_nat ?b = show_nat ?c @ [48 + ?b mod 10]" using r(3) by (subst show_nat_unfold) simp
  moreover have "show_nat ?c = [48 + ?c]" using r(4) by (subst show_nat_unfold) simp
  ultimately show ?thesis by simp
qed

subsection \<open>Trimming, and the blocks of a trimmed content\<close>

lemma trim_sandwich:
  assumes "list_all is_ws w1" "list_all is_ws w2" "t = [] \<or> (\<not> is_ws (hd t) \<and> \<not> is_ws (last t))"
  shows "trim (w1 @ t @ w2) = t"
proof (cases "t = []")
  case True
  with assms(1,2) have "list_all is_ws (w1 @ t @ w2)" by simp
  then show ?thesis using True by (simp add: trim_Nil_iff)
next
  case False
  with assms(3) have h: "\<not> is_ws (hd t)" and l: "\<not> is_ws (last t)" by auto
  have "\<And>x. x \<in> set w1 \<Longrightarrow> is_ws x" using assms(1) by (simp add: list_all_iff)
  then have "dropWhile is_ws (w1 @ t @ w2) = dropWhile is_ws (t @ w2)"
    by (rule dropWhile_append2)
  also have "\<dots> = t @ w2" using False h by (intro dropWhile_hd_id) auto
  finally have d: "dropWhile is_ws (w1 @ t @ w2) = t @ w2" .
  have "\<And>x. x \<in> set (rev w2) \<Longrightarrow> is_ws x" using assms(2) by (simp add: list_all_iff)
  then have "dropWhile is_ws (rev w2 @ rev t) = dropWhile is_ws (rev t)"
    by (rule dropWhile_append2)
  also have "\<dots> = rev t" using False l by (intro dropWhile_hd_id) (auto simp: hd_rev)
  finally show ?thesis by (simp add: trim_def d)
qed

lemma trim_decompose: "\<exists>w1 w2. s = w1 @ trim s @ w2 \<and> list_all is_ws w1 \<and> list_all is_ws w2"
proof -
  let ?d = "dropWhile is_ws s"
  let ?w1 = "takeWhile is_ws s"
  let ?w2 = "rev (takeWhile is_ws (rev ?d))"
  have "rev (dropWhile is_ws (rev ?d)) @ ?w2 = ?d"
    by (simp only: rev_append [symmetric] takeWhile_dropWhile_id rev_rev_ident)
  then have "?d = trim s @ ?w2" by (simp only: trim_def)
  moreover have "s = ?w1 @ ?d" by simp
  ultimately have "s = ?w1 @ trim s @ ?w2" by simp
  moreover have "list_all is_ws ?w1" by simp
  moreover have "list_all is_ws ?w2" by (simp add: list_all_iff) (meson set_takeWhileD)
  ultimately show ?thesis by blast
qed

lemma trim_append_ws: "list_all is_ws w \<Longrightarrow> trim (s @ w) = trim s"
proof -
  assume w: "list_all is_ws w"
  obtain w1 w2 where s: "s = w1 @ trim s @ w2" and a: "list_all is_ws w1" "list_all is_ws w2"
    using trim_decompose by blast
  have "trim (w1 @ trim s @ (w2 @ w)) = trim s"
    using a w trim_ends [of s] by (intro trim_sandwich) auto
  with s show ?thesis by (metis append.assoc)
qed

lemma trim_head_keeps:
  assumes "s \<noteq> []" "\<not> is_ws (hd s)"
  shows "\<exists>w. s = trim s @ w \<and> list_all is_ws w"
proof -
  obtain w1 w2 where s: "s = w1 @ trim s @ w2" and a: "list_all is_ws w1" "list_all is_ws w2"
    using trim_decompose by blast
  have "w1 = []"
  proof (rule ccontr)
    assume "w1 \<noteq> []"
    then have "hd s = hd w1" using s by (metis hd_append2)
    moreover have "is_ws (hd w1)" using a(1) \<open>w1 \<noteq> []\<close> by (cases w1) auto
    ultimately show False using assms(2) by simp
  qed
  with s a show ?thesis by auto
qed

lemma join_split [simp]: "join_with [sep] (split_on sep s) = s"
proof (induction s)
  case Nil
  show ?case by simp
next
  case (Cons c s)
  obtain l ls where e: "split_on sep s = l # ls"
    using split_on_not_Nil [of sep s] by (cases "split_on sep s") auto
  with Cons show ?case by (cases ls) auto
qed

lemma map_trim_split_ws:
  "list_all is_ws w \<Longrightarrow> \<exists>k. map trim (split_on NL (t @ w)) = map trim (split_on NL t) @ replicate k []"
proof (induction w rule: rev_induct)
  case Nil
  show ?case by (rule exI [of _ 0]) simp
next
  case (snoc c w)
  then obtain k where k: "map trim (split_on NL (t @ w)) = map trim (split_on NL t) @ replicate k []"
    by auto
  from snoc.prems have c: "is_ws c" by simp
  show ?case
  proof (cases "c = NL")
    case True
    have "split_on NL ((t @ w) @ NL # []) = split_on NL (t @ w) @ split_on NL []"
      by (rule split_on_append_sep)
    with k True have "map trim (split_on NL (t @ w @ [c])) = map trim (split_on NL t) @ replicate (Suc k) []"
      by (simp add: trim_def replicate_append_same)
    then show ?thesis by blast
  next
    case False
    let ?S = "split_on NL (t @ w)"
    have "split_on NL ((t @ w) @ [c]) = butlast ?S @ [last ?S @ [c]]"
      using False by (rule split_on_snoc)
    moreover have "trim (last ?S @ [c]) = trim (last ?S)" using c by (intro trim_append_ws) simp
    ultimately have "map trim (split_on NL ((t @ w) @ [c])) = map trim (butlast ?S) @ [trim (last ?S)]"
      by simp
    also have "\<dots> = map trim (butlast ?S @ [last ?S])"
      by (simp only: map_append list.map)
    also have "\<dots> = map trim ?S"
      by (simp only: append_butlast_last_id [OF split_on_not_Nil])
    finally show ?thesis using k by auto
  qed
qed

lemma line_step_trim: "line_step st (trim l) = line_step st l"
  by (simp add: line_step_def)

lemma foldl_line_step_trim: "foldl line_step st (map trim ls) = foldl line_step st ls"
  by (induction ls arbitrary: st) (simp_all add: line_step_trim)

lemma blocks_of_map_trim: "blocks_of (map trim ls) = blocks_of ls"
  by (simp add: blocks_of_def foldl_line_step_trim)

lemma blocks_of_finish: "blocks_of ls = finish (foldl line_step ([], []) ls)"
  by (simp add: blocks_of_def finish_def flush_def split: prod.splits)

lemma strip_emoji_Nil [simp]: "strip_emoji [] = None"
  by (simp add: strip_emoji_def)

lemma isNewEntry_Nil [simp]: "\<not> isNewEntry []"
  by (simp add: isNewEntry_def)

lemma trim_Nil [simp]: "trim [] = []"
  by (simp add: trim_def)

lemma finish_blank: "finish (foldl line_step st (replicate k [])) = finish st"
proof (induction k arbitrary: st)
  case 0
  show ?case by simp
next
  case (Suc k)
  obtain b c where st: "st = (b, c)" by (cases st)
  have "trim (c @ [NL]) = trim c" by (intro trim_append_ws) simp
  then have "finish (line_step st []) = finish st"
    by (simp add: st line_step_def finish_def flush_def)
  with Suc [of "line_step st []"] show ?case by simp
qed

lemma blocks_of_blank: "blocks_of (ls @ replicate k []) = blocks_of ls"
  by (simp add: blocks_of_finish finish_blank)

lemma blocks_of_trim:
  assumes "X \<noteq> []" "\<not> is_ws (hd X)"
  shows "blocks_of (split_on NL (trim X)) = blocks_of (split_on NL X)"
proof -
  obtain w where X: "X = trim X @ w" and w: "list_all is_ws w"
    using trim_head_keeps [OF assms] by blast
  obtain k where "map trim (split_on NL (trim X @ w)) = map trim (split_on NL (trim X)) @ replicate k []"
    using map_trim_split_ws [OF w] by blast
  with X have "map trim (split_on NL X) = map trim (split_on NL (trim X)) @ replicate k []" by simp
  then have "blocks_of (map trim (split_on NL X)) = blocks_of (map trim (split_on NL (trim X)))"
    by (simp add: blocks_of_blank)
  then show ?thesis by (simp add: blocks_of_map_trim)
qed

subsection \<open>The header line of an exported entry\<close>

lemma strip_emoji_prefix: "strip_emoji (MOOD_EMOJIS m @ r) = Some (m, r)"
  by (cases m) (simp_all add: strip_emoji_def)

lemma alpha_classes:
  "is_alpha_i c \<Longrightarrow> is_alpha_iu c"
  "is_alpha_iu c \<Longrightarrow> \<not> is_ws c"
  "is_alpha_iu c \<Longrightarrow> \<not> is_digit c"
  "is_alpha_iu c \<Longrightarrow> \<not> is_line_terminator c"
  "is_alpha_iu c \<Longrightarrow> c \<noteq> NL"
  "is_digit c \<Longrightarrow> \<not> is_ws c"
  "is_digit c \<Longrightarrow> \<not> is_line_terminator c"
  "is_digit c \<Longrightarrow> c \<noteq> NL"
  by (auto simp: is_alpha_i_def is_alpha_iu_def is_ws_def is_digit_def is_line_terminator_def NL_def)

lemma space_comma [simp]:
  "is_ws 32" "\<not> is_digit 32" "\<not> is_digit 44" "\<not> is_alpha_iu 32" "\<not> is_alpha_i 32"
  "\<not> is_line_terminator 32" "\<not> is_line_terminator 44" "\<not> is_ws 44"
  by (simp_all add: is_alpha_i_def is_alpha_iu_def is_ws_def is_digit_def is_line_terminator_def)

lemma takeWhile_run: "list_all P xs \<Longrightarrow> \<not> P y \<Longrightarrow> takeWhile P (xs @ y # ys) = xs"
  by (induction xs) auto

lemma dropWhile_run: "list_all P xs \<Longrightarrow> \<not> P y \<Longrightarrow> dropWhile P (xs @ y # ys) = y # ys"
  by (induction xs) auto

lemma dropWhile_space: "xs \<noteq> [] \<Longrightarrow> \<not> is_ws (hd xs) \<Longrightarrow> dropWhile is_ws (32 # xs @ ys) = xs @ ys"
  by (cases xs) auto

lemma date_text_match_formatted:
  assumes al: "\<And>c. alpha c \<Longrightarrow> is_alpha_iu c"
    and MON: "MON \<noteq> []" "list_all alpha MON"
    and DAY: "DAY \<noteq> []" "list_all is_digit DAY"
    and YEAR: "length YEAR = 4" "list_all is_digit YEAR"
    and WD: "WD \<noteq> []" "list_all alpha WD"
  shows "date_text_match alpha (MON @ [32] @ DAY @ [32] @ YEAR @ [44, 32] @ WD) = Some (MON, DAY, YEAR)"
proof -
  let ?s = "MON @ [32] @ DAY @ [32] @ YEAR @ [44, 32] @ WD"
  let ?r1 = "32 # DAY @ 32 # YEAR @ 44 # 32 # WD"
  let ?r2 = "DAY @ 32 # YEAR @ 44 # 32 # WD"
  let ?r3 = "32 # YEAR @ 44 # 32 # WD"
  let ?r4 = "YEAR @ 44 # 32 # WD"
  let ?r5 = "44 # 32 # WD"
  have n32: "\<not> alpha 32" using al [of 32] by auto
  have yne: "YEAR \<noteq> []" using YEAR(1) by auto
  have hd_day: "\<not> is_ws (hd DAY)" using DAY by (cases DAY) (auto simp: alpha_classes)
  have hd_year: "\<not> is_ws (hd YEAR)" using YEAR yne by (cases YEAR) (auto simp: alpha_classes)
  have hd_wd: "\<not> is_ws (hd WD)" using WD al by (cases WD) (auto simp: alpha_classes)
  have t1: "takeWhile alpha ?s = MON" using takeWhile_run [OF MON(2) n32] by simp
  have d1: "dropWhile alpha ?s = ?r1" using dropWhile_run [OF MON(2) n32] by simp
  have d2: "dropWhile is_ws ?r1 = ?r2" using dropWhile_space [OF DAY(1) hd_day] by simp
  have t3: "takeWhile is_digit ?r2 = DAY" using takeWhile_run [OF DAY(2), of 32] by simp
  have d3: "dropWhile is_digit ?r2 = ?r3" using dropWhile_run [OF DAY(2), of 32] by simp
  have d4: "dropWhile is_ws ?r3 = ?r4" using dropWhile_space [OF yne hd_year] by simp
  have t5: "takeWhile is_digit ?r4 = YEAR" using takeWhile_run [OF YEAR(2), of 44] by simp
  have d5: "dropWhile is_digit ?r4 = ?r5" using dropWhile_run [OF YEAR(2), of 44] by simp
  have d6: "dropWhile is_ws WD = WD" using WD(1) hd_wd by (rule dropWhile_hd_id)
  have n1: "?r2 \<noteq> ?r1" by (metis length_Cons n_not_Suc_n)
  have n2: "?r4 \<noteq> ?r3" by (metis length_Cons n_not_Suc_n)
  have n3: "WD \<noteq> 32 # WD" by simp
  show ?thesis
    unfolding date_text_match_def Let_def t1 d1 d2 t3 d3 d4 t5 d5
    using MON DAY YEAR WD n1 n2 n3 by (simp add: d6)
qed

lemma locale_ok_month:
  "locale_ok loc \<Longrightarrow> i \<le> 11 \<Longrightarrow>
     month_long_upper loc i \<noteq> [] \<and> list_all is_alpha_i (month_long_upper loc i)
     \<and> getMonthIndex loc (month_long_upper loc i) = Some i"
  by (auto simp: locale_ok_def list_all_iff)

lemma locale_ok_weekday:
  "locale_ok loc \<Longrightarrow> i < 7 \<Longrightarrow>
     weekday_long_upper loc i \<noteq> [] \<and> list_all is_alpha_i (weekday_long_upper loc i)"
  by (auto simp: locale_ok_def list_all_iff)

lemma getDay_less: "getDay dn < 7"
  by (simp add: getDay_def)

lemma show_int_nonneg: "0 \<le> i \<Longrightarrow> show_int i = show_nat (nat i)"
  by (simp add: show_int_def)

lemma header_parts:
  assumes "header_ok loc dn"
  defines "MON \<equiv> month_long_upper loc (getMonth dn)"
    and "DAY \<equiv> show_int (getDate dn)"
    and "YEAR \<equiv> show_int (getFullYear dn)"
    and "WD \<equiv> weekday_long_upper loc (getDay dn)"
  shows "formatDisplayDate loc (Some dn) = MON @ [32] @ DAY @ [32] @ YEAR @ [44, 32] @ WD"
    and "MON \<noteq> []" "list_all is_alpha_i MON" "getMonthIndex loc MON = Some (getMonth dn)"
    and "DAY \<noteq> []" "list_all is_digit DAY" "parseInt DAY = getDate dn"
    and "length YEAR = 4" "list_all is_digit YEAR" "parseInt YEAR = getFullYear dn"
    and "WD \<noteq> []" "list_all is_alpha_i WD"
proof -
  from assms(1) have l: "locale_ok loc" and y: "1000 \<le> getFullYear dn" "getFullYear dn \<le> 9999"
    by (simp_all add: header_ok_def)
  from civil_fields [of dn] have m: "getMonth dn \<le> 11" and d: "1 \<le> getDate dn" by simp_all
  show "formatDisplayDate loc (Some dn) = MON @ [32] @ DAY @ [32] @ YEAR @ [44, 32] @ WD"
    by (simp add: formatDisplayDate_def MON_def DAY_def YEAR_def WD_def)
  from locale_ok_month [OF l m]
  show "MON \<noteq> []" "list_all is_alpha_i MON" "getMonthIndex loc MON = Some (getMonth dn)"
    by (simp_all add: MON_def)
  from locale_ok_weekday [OF l getDay_less [of dn]]
  show "WD \<noteq> []" "list_all is_alpha_i WD" by (simp_all add: WD_def)
  have D: "DAY = show_nat (nat (getDate dn))" using d by (simp add: DAY_def show_int_nonneg)
  show "DAY \<noteq> []" "list_all is_digit DAY" "parseInt DAY = getDate dn"
    using show_nat_digits [of "nat (getDate dn)"] d by (simp_all add: D parseInt_show_nat)
  have Y: "YEAR = show_nat (nat (getFullYear dn))" using y by (simp add: YEAR_def show_int_nonneg)
  show "length YEAR = 4" "list_all is_digit YEAR" "parseInt YEAR = getFullYear dn"
    using show_nat_digits [of "nat (getFullYear dn)"] y
    by (simp_all add: Y parseInt_show_nat length_show_nat)
qed

lemma emoji_facts:
  "MOOD_EMOJIS m \<noteq> []" "\<not> is_ws (hd (MOOD_EMOJIS m))" "NL \<notin> set (MOOD_EMOJIS m)"
  by (cases m; simp add: is_ws_def NL_def)+

lemma header_facts:
  assumes "header_ok loc dn"
  shows "isNewEntry (header loc m dn)"
    and "emojiMatch (header loc m dn) = Some (m, formatDisplayDate loc (Some dn))"
    and "header loc m dn \<noteq> []" "\<not> is_ws (hd (header loc m dn))" "\<not> is_ws (last (header loc m dn))"
    and "NL \<notin> set (header loc m dn)"
proof -
  note p = header_parts [OF assms]
  let ?MON = "month_long_upper loc (getMonth dn)" and ?DAY = "show_int (getDate dn)"
  let ?YEAR = "show_int (getFullYear dn)" and ?WD = "weekday_long_upper loc (getDay dn)"
  let ?DT = "formatDisplayDate loc (Some dn)"
  have iu: "list_all is_alpha_iu ?MON" "list_all is_alpha_iu ?WD"
    using p(3,12) by (auto simp: list_all_iff alpha_classes)
  have m_iu: "date_text_match is_alpha_iu ?DT = Some (?MON, ?DAY, ?YEAR)"
    unfolding p(1) using p iu by (intro date_text_match_formatted) auto
  have dtne: "?DT \<noteq> []" using p(2) by (simp add: p(1))
  have hdDT: "\<not> is_ws (hd ?DT)"
    using p(2,3) by (cases ?MON) (auto simp: p(1) alpha_classes)
  have dw: "dropWhile is_ws (32 # ?DT) = ?DT" "takeWhile is_ws (32 # ?DT) = [32]"
    using dtne hdDT by (cases ?DT; simp)+
  have h: "header loc m dn = MOOD_EMOJIS m @ 32 # ?DT" by (simp add: header_def)
  show "isNewEntry (header loc m dn)"
    unfolding isNewEntry_def h strip_emoji_prefix using dw(1) m_iu dtne by simp
  have "\<forall>c\<in>set ?DT. \<not> is_line_terminator c"
    using p(3,6,9,12) by (auto simp: p(1) list_all_iff alpha_classes)
  then have nolt: "\<not> list_ex is_line_terminator ?DT" by (simp add: list_ex_iff)
  show "emojiMatch (header loc m dn) = Some (m, ?DT)"
    unfolding emojiMatch_def h strip_emoji_prefix using dw dtne nolt by (simp add: Let_def)
  show "header loc m dn \<noteq> []" by (simp add: h)
  show "\<not> is_ws (hd (header loc m dn))" using emoji_facts(1,2) [of m] by (simp add: h)
  have "last (header loc m dn) = last ?WD" using p(11) by (simp add: h p(1))
  moreover have "is_alpha_i (last ?WD)" using p(11,12) by (simp add: list_all_iff)
  ultimately show "\<not> is_ws (last (header loc m dn))" by (simp add: alpha_classes)
  have "NL \<notin> set ?MON" "NL \<notin> set ?WD" using p(3,12) alpha_classes(1,5) by (auto simp: list_all_iff)
  moreover have "NL \<notin> set ?DAY" "NL \<notin> set ?YEAR" using p(6,9) alpha_classes(8) by (auto simp: list_all_iff)
  moreover have "NL \<noteq> 32" "NL \<noteq> 44" by (simp_all add: NL_def)
  ultimately have "NL \<notin> set ?DT" by (simp add: p(1))
  moreover have "NL \<noteq> 32" by (simp add: NL_def)
  ultimately show "NL \<notin> set (header loc m dn)" using emoji_facts(3) [of m] by (simp add: h)
qed

lemma header_date_text:
  assumes "header_ok loc dn"
  shows "date_text_match is_alpha_i (formatDisplayDate loc (Some dn))
          = Some (month_long_upper loc (getMonth dn), show_int (getDate dn), show_int (getFullYear dn))"
proof -
  note p = header_parts [OF assms]
  show ?thesis
    unfolding p(1) using p by (intro date_text_match_formatted) (auto simp: alpha_classes)
qed

lemma header_step:
  "isNewEntry (trim h) \<Longrightarrow> line_step (b, cur) h = (b @ flush cur, trim h)"
  by (simp add: line_step_def flush_def)

lemma body_steps:
  "cur \<noteq> [] \<Longrightarrow> list_all (\<lambda>t. \<not> isNewEntry (trim t)) ts \<Longrightarrow>
   foldl line_step (b, cur) ts = (b, cur @ concat (map (\<lambda>t. NL # trim t) ts))"
proof (induction ts arbitrary: cur)
  case Nil
  show ?case by simp
next
  case (Cons t ts)
  from Cons.prems have "line_step (b, cur) t = (b, cur @ NL # trim t)"
    by (simp add: line_step_def)
  with Cons.IH [of "cur @ NL # trim t"] Cons.prems show ?case by simp
qed

lemma block_steps:
  assumes "isNewEntry h" "trim h = h" "h \<noteq> []" "list_all (\<lambda>t. \<not> isNewEntry (trim t)) ts"
  shows "foldl line_step (b, cur) (h # ts @ [[]]) = (b @ flush cur, block_text h ts)"
proof -
  have "line_step (b, cur) h = (b @ flush cur, h)"
    using header_step [of h b cur] assms(1,2) by simp
  moreover have "list_all (\<lambda>t. \<not> isNewEntry (trim t)) (ts @ [[]])" using assms(4) by simp
  ultimately show ?thesis
    using body_steps [OF assms(3), of "ts @ [[]]" "b @ flush cur"]
    by (simp add: block_text_def)
qed

lemma trim_block_text: "trim h = h \<Longrightarrow> h \<noteq> [] \<Longrightarrow> trim (block_text h ts) \<noteq> []"
proof -
  assume a: "trim h = h" "h \<noteq> []"
  then have "\<not> is_ws (hd h)" by (simp add: trim_fixed_iff)
  then have "\<not> list_all is_ws (block_text h ts)"
    using a(2) by (cases h) (auto simp: block_text_def)
  then show ?thesis by (simp add: trim_Nil_iff)
qed

lemma blocks_fold:
  "list_all block_ok ps \<Longrightarrow>
   finish (foldl line_step (b, cur) (concat (map (\<lambda>(h, ts). h # ts @ [[]]) ps)))
     = b @ flush cur @ map (\<lambda>(h, ts). trim (block_text h ts)) ps"
proof (induction ps arbitrary: b cur)
  case Nil
  show ?case by (simp add: finish_def)
next
  case (Cons p ps)
  obtain h ts where p: "p = (h, ts)" by (cases p)
  from Cons.prems p have bp: "block_ok (h, ts)" and rest: "list_all block_ok ps"
    by simp_all
  from bp have ok: "isNewEntry h" "trim h = h" "h \<noteq> []"
    "list_all (\<lambda>t. \<not> isNewEntry (trim t)) ts"
    by (simp_all add: block_ok_def)
  have f: "flush (block_text h ts) = [trim (block_text h ts)]"
    using trim_block_text [OF ok(2,3)] by (simp add: flush_def)
  have "foldl line_step (b, cur) (concat (map (\<lambda>(h, ts). h # ts @ [[]]) (p # ps)))
        = foldl line_step (foldl line_step (b, cur) (h # ts @ [[]]))
            (concat (map (\<lambda>(h, ts). h # ts @ [[]]) ps))"
    by (simp add: p)
  also have "\<dots> = foldl line_step (b @ flush cur, block_text h ts)
            (concat (map (\<lambda>(h, ts). h # ts @ [[]]) ps))"
    by (simp only: block_steps [OF ok])
  finally show ?case using Cons.IH [OF rest, of "b @ flush cur" "block_text h ts"]
    by (simp add: f p)
qed

lemma split_on_header: "NL \<notin> set h \<Longrightarrow> split_on NL (h @ NL # d) = h # split_on NL d"
  using split_on_append_sep [of NL h d] by (simp add: split_on_no_sep)

lemma split_join_blocks:
  "bs \<noteq> [] \<Longrightarrow> split_on NL (join_with [NL, NL] bs) @ [[]] = concat (map (\<lambda>b. split_on NL b @ [[]]) bs)"
proof (induction bs)
  case Nil
  then show ?case by simp
next
  case (Cons b bs)
  show ?case
  proof (cases bs)
    case Nil
    then show ?thesis by simp
  next
    case (Cons b' bs')
    then have j: "join_with [NL, NL] (b # bs) = b @ NL # NL # join_with [NL, NL] bs" by simp
    have "split_on NL (b @ NL # NL # join_with [NL, NL] bs)
        = split_on NL b @ split_on NL (NL # join_with [NL, NL] bs)"
      by (rule split_on_append_sep)
    also have "\<dots> = split_on NL b @ [] # split_on NL (join_with [NL, NL] bs)" by simp
    finally show ?thesis using Cons.IH Cons by (simp add: j)
  qed
qed

subsection \<open>The block of an exported entry, parsed\<close>

lemma parse_shape:
  fixes Y :: jstring
  assumes H: "H \<noteq> []" "\<not> is_ws (hd H)" "\<not> is_ws (last H)" "NL \<notin> set H"
  defines "b \<equiv> trim (H @ NL # Y)"
  shows "hd (split_on NL b) = H
     \<and> (if length (split_on NL b) > 1 then trim (join_with [NL] (tl (split_on NL b))) else []) = trim Y"
proof -
  obtain w1 w2 where Y: "Y = w1 @ trim Y @ w2" and w: "list_all is_ws w1" "list_all is_ws w2"
    using trim_decompose by blast
  show ?thesis
  proof (cases "trim Y = []")
    case True
    then have "list_all is_ws (NL # Y)" by (simp add: trim_Nil_iff)
    then have "trim ([] @ H @ NL # Y) = H" using H by (intro trim_sandwich) simp_all
    then have "b = H" by (simp add: b_def)
    then show ?thesis using H(4) True by (simp add: split_on_no_sep)
  next
    case False
    let ?T = "H @ NL # w1 @ trim Y"
    have l: "last ?T = last (trim Y)" using False by simp
    have "trim ([] @ ?T @ w2) = ?T"
      using H w trim_ends [OF False] by (intro trim_sandwich) (simp_all add: l)
    moreover have "H @ NL # Y = [] @ ?T @ w2" using Y by simp
    ultimately have b: "b = ?T" by (simp only: b_def)
    have s: "split_on NL b = H # split_on NL (w1 @ trim Y)"
      unfolding b using H(4) by (rule split_on_header)
    have "trim (w1 @ trim Y @ []) = trim Y"
      using w(1) trim_ends [OF False] by (intro trim_sandwich) simp_all
    then have t: "trim (w1 @ trim Y) = trim Y" by simp
    have "length (split_on NL (w1 @ trim Y)) > 0" by simp
    then show ?thesis by (simp add: s t)
  qed
qed

lemma concat_lines: "xs \<noteq> [] \<Longrightarrow> concat (map (\<lambda>t. NL # f t) xs) = NL # join_with [NL] (map f xs)"
proof (induction xs)
  case Nil
  then show ?case by simp
next
  case (Cons x xs)
  then show ?case by (cases xs) auto
qed

lemma join_with_snoc_empty: "xs \<noteq> [] \<Longrightarrow> join_with [NL] (xs @ [[]]) = join_with [NL] xs @ [NL]"
proof (induction xs)
  case Nil
  then show ?case by simp
next
  case (Cons x xs)
  then show ?case by (cases xs) auto
qed

lemma block_text_shape:
  "ts \<noteq> [] \<Longrightarrow> block_text h ts = h @ NL # (join_with [NL] (map trim ts) @ [NL])"
proof -
  assume ne: "ts \<noteq> []"
  have "concat (map (\<lambda>t. NL # trim t) (ts @ [[]])) = NL # join_with [NL] (map trim (ts @ [[]]))"
    by (rule concat_lines) simp
  also have "map trim (ts @ [[]]) = map trim ts @ [[]]" by simp
  also have "join_with [NL] (map trim ts @ [[]]) = join_with [NL] (map trim ts) @ [NL]"
    using ne by (intro join_with_snoc_empty) simp
  finally show ?thesis by (simp add: block_text_def)
qed

lemma parse_block_exported:
  assumes ok: "header_ok loc dn" and pd: "parseDate (date e) = Some dn" and fd: "formatDate dn = date e"
  shows "parse_block loc (trim (block_text (header loc (mood e) dn) (split_on NL (cleanupTags (diary e)))))
         = Some (imported e)"
proof -
  let ?H = "header loc (mood e) dn"
  let ?ts = "split_on NL (cleanupTags (diary e))"
  let ?Y = "join_with [NL] (map trim ?ts) @ [NL]"
  let ?b = "trim (?H @ NL # ?Y)"
  note hf = header_facts [OF ok, of "mood e"]
  have bt: "block_text ?H ?ts = ?H @ NL # ?Y" by (rule block_text_shape) simp
  from parse_shape [OF hf(3,4,5,6), of ?Y]
  have first: "hd (split_on NL ?b) = ?H"
    and body: "(if length (split_on NL ?b) > 1 then trim (join_with [NL] (tl (split_on NL ?b))) else []) = trim ?Y"
    by simp_all
  have ty: "trim ?Y = trim (join_with [NL] (map trim ?ts))" by (intro trim_append_ws) simp
  note p = header_parts [OF ok]
  from ok have y: "100 \<le> getFullYear dn" by (simp add: header_ok_def)
  from parseDate_range [OF pd] have r: "- 100000000 \<le> dn" "dn \<le> 100000000" by simp_all
  have nd: "new_Date (parseInt (show_int (getFullYear dn))) (int (getMonth dn)) (parseInt (show_int (getDate dn)))
      = Some dn"
    using new_Date_fields [OF r y] by (simp add: p(7,10))
  show ?thesis
    unfolding bt parse_block_def Let_def first body hf(2)
    by (simp add: header_date_text [OF ok] p(4) nd fd ty imported_def)
qed

lemma join_with_head: "b \<noteq> [] \<Longrightarrow> join_with sep (b # bs) \<noteq> [] \<and> hd (join_with sep (b # bs)) = hd b"
  by (cases bs) auto

lemma map_filter_map_Some:
  "\<forall>x\<in>set xs. f (g x) = Some (h x) \<Longrightarrow> List.map_filter f (map g xs) = map h xs"
  by (induction xs) (simp_all add: List.map_filter_simps)


subsection \<open>The round trip\<close>

text \<open>
  C1 (amended). Let the host's locale have month and weekday names made of ASCII letters,
  each month name resolving to its own month. For every entry list with at least one
  valid entry in which every valid entry has a date in canonical form with a year of four
  digits and a normalised diary with no line that reads as a header line, importing the
  export returns the valid entries in the order of the export, most recent first, each
  with its date and mood unchanged and with the diary \<open>cleanupTags\<close> gives, every line
  of it trimmed and then the whole trimmed.
\<close>

theorem import_export_roundtrip:
  assumes loc: "locale_ok loc"
    and ne: "getValidEntries entries \<noteq> []"
    and ok: "\<forall>e\<in>set (getValidEntries entries).
               canonical_date (date e) \<and> no_header_lines (cleanupTags (diary e))"
  shows "importData loc (exportData loc entries)
         = Inr (map imported (sortEntriesByDate (getValidEntries entries) False))"
proof -
  let ?V = "sortEntriesByDate (getValidEntries entries) False"
  let ?dn = "\<lambda>e. the (parseDate (date e))"
  let ?H = "\<lambda>e. header loc (mood e) (?dn e)"
  let ?ts = "\<lambda>e. split_on NL (cleanupTags (diary e))"
  let ?X = "exportData loc entries"
  have Vne: "?V \<noteq> []"
    using ne mset_sortEntriesByDate [of "getValidEntries entries" False] by (metis mset_zero_iff)
  have each: "parseDate (date e) = Some (?dn e) \<and> formatDate (?dn e) = date e
      \<and> header_ok loc (?dn e) \<and> no_header_lines (cleanupTags (diary e))" if "e \<in> set ?V" for e
  proof -
    from that ok have c: "canonical_date (date e)" and n: "no_header_lines (cleanupTags (diary e))"
      by simp_all
    from c obtain dn where "parseDate (date e) = Some dn" "formatDate dn = date e"
      "1000 \<le> getFullYear dn" "getFullYear dn \<le> 9999"
      by (auto simp: canonical_date_def split: option.splits)
    with loc n show ?thesis by (simp add: header_ok_def)
  qed
  have blk: "entry_block loc e = ?H e @ NL # cleanupTags (diary e)" if "e \<in> set ?V" for e
    using each [OF that] by (simp add: entry_block_def header_def)
  have X: "?X = join_with [NL, NL] (map (entry_block loc) ?V)"
    using ne by (simp add: exportData_def Let_def)
  obtain v vs where V: "?V = v # vs" using Vne by (cases ?V) auto
  have v: "v \<in> set ?V" by (simp add: V)
  note hv = header_facts [of loc "?dn v" "mood v"]
  have hok: "header_ok loc (?dn v)" using each [OF v] by simp
  have b1: "entry_block loc v \<noteq> []" "hd (entry_block loc v) = hd (?H v)"
    using hv(3) [OF hok] by (simp_all add: blk [OF v])
  from join_with_head [OF b1(1), of "[NL, NL]" "map (entry_block loc) vs"]
  have Xne: "?X \<noteq> []" and Xhd: "\<not> is_ws (hd ?X)"
    using hv(4) [OF hok] b1(2) by (simp_all add: X V)
  then have tX: "trim ?X \<noteq> []"
    by (metis trim_Nil_iff list.set_sel(1) list_all_iff)
  let ?ps = "map (\<lambda>e. (?H e, ?ts e)) ?V"
  have lines: "split_on NL ?X @ replicate 1 [] = concat (map (\<lambda>(h, ts). h # ts @ [[]]) ?ps)"
  proof -
    have "split_on NL ?X @ [[]] = concat (map (\<lambda>b. split_on NL b @ [[]]) (map (entry_block loc) ?V))"
      unfolding X using Vne by (intro split_join_blocks) simp
    also have "\<dots> = concat (map (\<lambda>e. ?H e # ?ts e @ [[]]) ?V)"
    proof -
      have eq: "split_on NL (entry_block loc e) @ [[]] = ?H e # ?ts e @ [[]]" if "e \<in> set ?V" for e
        using header_facts(6) [of loc "?dn e" "mood e"] each [OF that]
        by (simp add: blk [OF that] split_on_header)
      have "map (\<lambda>b. split_on NL b @ [[]]) (map (entry_block loc) ?V)
          = map (\<lambda>e. split_on NL (entry_block loc e) @ [[]]) ?V"
        by (simp add: comp_def)
      also have "\<dots> = map (\<lambda>e. ?H e # ?ts e @ [[]]) ?V"
        by (rule map_cong [OF refl]) (rule eq)
      finally show ?thesis by (rule arg_cong)
    qed
    finally show ?thesis by (simp add: comp_def case_prod_unfold)
  qed
  have pok: "list_all block_ok ?ps"
  proof -
    have "block_ok (?H e, ?ts e)" if "e \<in> set ?V" for e
    proof -
      note h = header_facts [of loc "?dn e" "mood e"]
      from each [OF that] have o: "header_ok loc (?dn e)" and n: "no_header_lines (cleanupTags (diary e))"
        by simp_all
      have "trim (?H e) = ?H e" using h(3,4,5) [OF o] by (intro trim_fixed) simp
      with h(1,3) [OF o] n show ?thesis by (simp add: block_ok_def no_header_lines_def)
    qed
    then show ?thesis by (simp add: list_all_iff)
  qed
  have "blocks_of (split_on NL (trim ?X)) = blocks_of (split_on NL ?X)"
    using Xne Xhd by (rule blocks_of_trim)
  also have "\<dots> = blocks_of (split_on NL ?X @ replicate 1 [])"
    by (simp only: blocks_of_blank)
  also have "\<dots> = finish (foldl line_step ([], []) (concat (map (\<lambda>(h, ts). h # ts @ [[]]) ?ps)))"
    by (simp only: lines blocks_of_finish)
  also have "\<dots> = [] @ flush [] @ map (\<lambda>(h, ts). trim (block_text h ts)) ?ps"
    using pok by (rule blocks_fold)
  finally have blocks: "blocks_of (split_on NL (trim ?X)) = map (\<lambda>e. trim (block_text (?H e) (?ts e))) ?V"
    by (simp add: flush_def comp_def)
  have "List.map_filter (parse_block loc) (map (\<lambda>e. trim (block_text (?H e) (?ts e))) ?V) = map imported ?V"
  proof (rule map_filter_map_Some, rule ballI)
    fix e assume "e \<in> set ?V"
    from each [OF this] show "parse_block loc (trim (block_text (?H e) (?ts e))) = Some (imported e)"
      by (intro parse_block_exported) simp_all
  qed
  with blocks have "parse_blocks loc (blocks_of (split_on NL (trim ?X))) [] = map imported ?V"
    by (simp add: parse_blocks_map_filter)
  with tX Vne show ?thesis by (simp add: importData_def Let_def)
qed

text \<open>Three entries, one of them not valid, exported and imported under the English locale.\<close>

theorem import_export_roundtrip_witness:
  "locale_ok en_US
   \<and> importData en_US (exportData en_US
        [\<lparr>date = js ''2024-01-01'', mood = Red, diary = js '' hi''\<rparr>,
         \<lparr>date = js ''2023-12-31'', mood = Grey, diary = []\<rparr>,
         \<lparr>date = js ''2024-03-05'', mood = Blue, diary = js ''<b>ok</b>''\<rparr>])
     = Inr [\<lparr>date = js ''2024-03-05'', mood = Blue, diary = js ''<b>ok</b>''\<rparr>,
            \<lparr>date = js ''2024-01-01'', mood = Red, diary = js ''hi''\<rparr>]"
proof -
  let ?a = "\<lparr>date = js ''2024-01-01'', mood = Red, diary = js '' hi''\<rparr>"
  let ?b = "\<lparr>date = js ''2023-12-31'', mood = Grey, diary = []\<rparr>"
  let ?c = "\<lparr>date = js ''2024-03-05'', mood = Blue, diary = js ''<b>ok</b>''\<rparr>"
  have l: "locale_ok en_US" by code_simp
  have v: "getValidEntries [?a, ?b, ?c] = [?a, ?c]" by code_simp
  have a: "canonical_date (date ?a) \<and> no_header_lines (cleanupTags (diary ?a))" by code_simp
  have c: "canonical_date (date ?c) \<and> no_header_lines (cleanupTags (diary ?c))" by code_simp
  have n: "getValidEntries [?a, ?b, ?c] \<noteq> []" by (simp add: v)
  have o: "\<forall>e\<in>set (getValidEntries [?a, ?b, ?c]).
             canonical_date (date e) \<and> no_header_lines (cleanupTags (diary e))"
    unfolding v using a c by simp
  have r: "map imported (sortEntriesByDate (getValidEntries [?a, ?b, ?c]) False)
      = [\<lparr>date = js ''2024-03-05'', mood = Blue, diary = js ''<b>ok</b>''\<rparr>,
         \<lparr>date = js ''2024-01-01'', mood = Red, diary = js ''hi''\<rparr>]"
    by code_simp
  from import_export_roundtrip [OF l n o] r l show ?thesis by simp
qed

text \<open>
  C1 as stated fails. A valid entry whose diary starts with a space comes back without
  the space, while \<open>cleanupTags\<close> keeps it; and the export of the empty list is the
  fixed text, which the import rejects.
\<close>

theorem import_export_roundtrip_counterexample:
  "getValidEntries [\<lparr>date = js ''2024-01-01'', mood = Red, diary = js '' hi''\<rparr>]
     = [\<lparr>date = js ''2024-01-01'', mood = Red, diary = js '' hi''\<rparr>]
   \<and> importData en_US (exportData en_US [\<lparr>date = js ''2024-01-01'', mood = Red, diary = js '' hi''\<rparr>])
     = Inr [\<lparr>date = js ''2024-01-01'', mood = Red, diary = js ''hi''\<rparr>]
   \<and> cleanupTags (js '' hi'') = js '' hi''
   \<and> js ''hi'' \<noteq> cleanupTags (js '' hi'')
   \<and> importData en_US (exportData en_US []) = Inl NoValidEntries"
  by code_simp

end
